theory Spec2Isabelle
  imports Main "HOL-Library.Sublist"
begin

section \<open>Values, exceptions and the outside world\<close>

text \<open>
  The script \<^verbatim>\<open>scrape_pubmed.py\<close> is embedded function by function. Exceptions are
  values of \<open>exn\<close>; only the classes that the code or the libraries it calls can raise on
  the paths modelled here are listed. \<open>TimeoutError\<close> is \<^verbatim>\<open>asyncio.TimeoutError\<close>, the only
  class that \<^verbatim>\<open>get_html_content\<close> catches; \<open>ClientError\<close> stands for every other exception
  of the HTTP client (connection reset, DNS failure, invalid URL, payload error);
  \<open>ParserRejectedMarkup\<close> is what \<^verbatim>\<open>BeautifulSoup(html_content, "html.parser")\<close> raises on
  markup that the parser of the standard library refuses.
\<close>

datatype exn =
    TimeoutError
  | ClientError string
  | KeyError string
  | AttributeError string
  | ValueError string
  | FileNotFoundError string
  | ParserRejectedMarkup

text \<open>
  A value of the dictionary \<^verbatim>\<open>texts\<close>: a Python \<^verbatim>\<open>str\<close> or the sentinel \<^verbatim>\<open>pd.NA\<close>.
  A Python \<^verbatim>\<open>dict\<close> keeps insertion order, so it is an association list.
\<close>

datatype val = Str string | NA

type_synonym texts = "(string \<times> val) list"

text \<open>
  What the network does with one request. \<^verbatim>\<open>session.get(url)\<close> either raises or yields a
  response object; \<^verbatim>\<open>response.text()\<close> then either raises or yields the body.
\<close>

datatype reply = Body string | Fails exn

datatype outcome = Responds reply | Refuses exn

text \<open>
  A parsed document is seen only through \<^verbatim>\<open>soup.select(selector)\<close>: for a CSS selector
  it gives the \<^verbatim>\<open>.text\<close> of every matched node, in document order. The parser and the
  selector engine (BeautifulSoup with \<^verbatim>\<open>html.parser\<close>) are parameters of the model. The
  parser is not total: for a document text it gives the parsed document, or \<open>None\<close> when
  it rejects the markup and the constructor raises.
\<close>

type_synonym soup = "string \<Rightarrow> string list"

record env =
  net :: "nat \<Rightarrow> string \<Rightarrow> outcome"
  BeautifulSoup :: "string \<Rightarrow> soup option"
  clock :: string

section \<open>Strings\<close>

text \<open>
  \<^verbatim>\<open>str.isspace\<close> on the ASCII range: tab, line feed, vertical tab, form feed, carriage
  return, the four separators 0x1C..0x1F and the space.
\<close>

definition isspace :: "char \<Rightarrow> bool" where
  "isspace c =
     (c \<in> {CHR 0x09, CHR 0x0A, CHR 0x0B, CHR 0x0C, CHR 0x0D,
            CHR 0x1C, CHR 0x1D, CHR 0x1E, CHR 0x1F, CHR 0x20})"

definition strip :: "string \<Rightarrow> string" where
  "strip s = rev (dropWhile isspace (rev (dropWhile isspace s)))"

fun join :: "string \<Rightarrow> string list \<Rightarrow> string" where
  "join sep [] = []"
| "join sep [x] = x"
| "join sep (x # y # ys) = x @ sep @ join sep (y # ys)"

section \<open>Field extraction (the second half of \<^verbatim>\<open>scrape_data\<close>)\<close>

definition elements :: "(string \<times> string) list" where
  "elements =
    [(''title'',
      ''header#heading.heading div#full-view-heading.full-view h1.heading-title''),
     (''publication_type'',
      ''header#heading.heading div#short-view-heading.short-view div.publication-type''),
     (''journal'',
      ''header#heading.heading div#full-view-heading.full-view div.article-citation div.article-source div.journal-actions.dropdown-block button#full-view-journal-trigger.journal-actions-trigger.trigger''),
     (''coi'',
      ''div#conflict-of-interest.conflict-of-interest div.statement p''),
     (''grants'',
      ''div#grants.grants''),
     (''authors'',
      ''header#heading.heading div#full-view-heading.full-view div.inline-authors div.authors div.authors-list''),
     (''abstracts'',
      ''div#abstract.abstract div#eng-abstract.abstract-content.selected''),
     (''pmid'',
      ''header#heading.heading div#full-view-heading.full-view ul#full-view-identifiers.identifiers li span.identifier.pubmed strong.current-id''),
     (''pmcid'',
      ''header#heading.heading div#full-view-heading.full-view ul#full-view-identifiers.identifiers li span.identifier.pmc a.id-link''),
     (''doi'',
      ''header#heading.heading div#full-view-heading.full-view ul#full-view-identifiers.identifiers li span.identifier.doi a.id-link''),
     (''citation'',
      ''header#heading.heading div#full-view-heading.full-view div.article-citation div.article-source span.cit''),
     (''erratum'',
      ''main#article-details.article-details div#linked-correction-forward.linked-articles'')]"

text \<open>\<^verbatim>\<open>d[key] = v\<close> on an insertion-ordered dictionary.\<close>

fun setitem :: "('k \<times> 'v) list \<Rightarrow> 'k \<Rightarrow> 'v \<Rightarrow> ('k \<times> 'v) list" where
  "setitem [] k v = [(k, v)]"
| "setitem ((k', v') # d) k v =
     (if k' = k then (k, v) # d else (k', v') # setitem d k v)"

text \<open>
  The right-hand side of the assignment in the loop:
  \<^verbatim>\<open>" ".join(e.text.strip() for e in element) if element else pd.NA\<close>.
\<close>

definition field_text :: "string list \<Rightarrow> val" where
  "field_text element =
     (if element \<noteq> [] then Str (join '' '' (map strip element)) else NA)"

text \<open>The loop \<^verbatim>\<open>for key, value in elements.items()\<close>, started on \<^verbatim>\<open>texts = {}\<close>.\<close>

definition extract_texts :: "soup \<Rightarrow> texts" where
  "extract_texts sp =
     fold (\<lambda>(key, value) texts. setitem texts key (field_text (sp value))) elements []"

text \<open>The twelve field names, as the output table is specified to carry them.\<close>

definition field_names :: "string list" where
  "field_names =
     [''title'', ''publication_type'', ''journal'', ''coi'', ''grants'', ''authors'',
      ''abstracts'', ''pmid'', ''pmcid'', ''doi'', ''citation'', ''erratum'']"

section \<open>One fetch-and-extract unit, read sequentially\<close>

text \<open>
  The \<^verbatim>\<open>except asyncio.TimeoutError\<close> clause of \<^verbatim>\<open>get_html_content\<close>: a timeout prints the
  diagnostic and makes the function return \<^verbatim>\<open>None\<close>; any other exception is not caught.
  The result is the lines printed and what the function then returns or raises.
\<close>

definition handler :: "string \<Rightarrow> exn \<Rightarrow> string list \<times> (exn + string option)" where
  "handler url e =
     (if e = TimeoutError
      then ([''TimeoutError occurred while fetching '' @ url], Inr None)
      else ([], Inl e))"

text \<open>\<^verbatim>\<open>get_html_content\<close> for a request whose network outcome is known.\<close>

fun get_html_content :: "outcome \<Rightarrow> string \<Rightarrow> string list \<times> (exn + string option)" where
  "get_html_content (Refuses e) url = handler url e"
| "get_html_content (Responds (Fails e)) url = handler url e"
| "get_html_content (Responds (Body b)) url = ([], Inr (Some b))"

text \<open>
  \<^verbatim>\<open>scrape_data\<close> after the \<^verbatim>\<open>await\<close>: an exception passes through, \<^verbatim>\<open>None\<close> is
  returned as \<^verbatim>\<open>None\<close>, a document is parsed and its fields extracted. The parsing is
  outside every \<^verbatim>\<open>try\<close>, so the exception of the parser leaves \<^verbatim>\<open>scrape_data\<close>.
\<close>

fun after_fetch :: "env \<Rightarrow> exn + string option \<Rightarrow> exn + texts option" where
  "after_fetch E (Inl e) = Inl e"
| "after_fetch E (Inr None) = Inr None"
| "after_fetch E (Inr (Some html_content)) =
     (case BeautifulSoup E html_content of
        None \<Rightarrow> Inl ParserRejectedMarkup
      | Some sp \<Rightarrow> Inr (Some (extract_texts sp)))"

text \<open>A fetch ends in a timeout when either of its two awaits raises it.\<close>

fun timed_out :: "outcome \<Rightarrow> bool" where
  "timed_out (Refuses e) = (e = TimeoutError)"
| "timed_out (Responds (Fails e)) = (e = TimeoutError)"
| "timed_out (Responds (Body b)) = False"

definition scrape_data :: "env \<Rightarrow> nat \<Rightarrow> string \<Rightarrow> exn + texts option" where
  "scrape_data E i url = after_fetch E (snd (get_html_content (net E i url) url))"

section \<open>The concurrent run: tasks, semaphore, event loop\<close>

text \<open>
  Each task is the coroutine \<^verbatim>\<open>scrape_data(url)\<close>; its phase is the suspension point it
  waits at. \<open>Pending\<close>: not yet past \<^verbatim>\<open>async with self.semaphore\<close>. \<open>Requesting\<close>: inside
  \<^verbatim>\<open>session.get(url)\<close>. \<open>Sleeping r\<close>: in \<^verbatim>\<open>asyncio.sleep(self.delay)\<close>, holding the
  response \<open>r\<close>. \<open>Reading r\<close>: in \<^verbatim>\<open>response.text()\<close>. \<open>Finishing x\<close>: the \<^verbatim>\<open>try\<close>
  statement is over with result or exception \<open>x\<close>, the session is being closed and the
  semaphore is still held. \<open>Finished x\<close>: the semaphore is released and \<^verbatim>\<open>scrape_data\<close> has
  returned or raised \<open>x\<close>.
\<close>

datatype phase =
    Pending
  | Requesting
  | Sleeping reply
  | Reading reply
  | Finishing "exn + string option"
  | Finished "exn + texts option"

datatype event =
    Acquired
  | RequestSent
  | ResponseReceived
  | DelayElapsed int
  | RequestEnded
  | Released

text \<open>
  The state of the event loop during \<^verbatim>\<open>scrape_all\<close>: the counter of the
  \<^verbatim>\<open>asyncio.Semaphore\<close>, the phase of every task (in the order of \<^verbatim>\<open>self.df["url"]\<close>),
  the lines printed, the log of what each task did, and the first exception that reached
  \<^verbatim>\<open>asyncio.gather\<close>.
\<close>

record config =
  sem_value :: int
  tasks :: "phase list"
  printed :: "string list"
  trace :: "(nat \<times> event) list"
  gather_exn :: "exn option"

text \<open>
  \<^verbatim>\<open>asyncio.Semaphore(max_requests)\<close> in \<^verbatim>\<open>Scraper.__init__\<close>: a negative initial value
  raises \<^verbatim>\<open>ValueError\<close>.
\<close>

definition Semaphore :: "int \<Rightarrow> exn + int" where
  "Semaphore v =
     (if v < 0 then Inl (ValueError ''Semaphore initial value must be >= 0'') else Inr v)"

definition init_config :: "int \<Rightarrow> string list \<Rightarrow> config" where
  "init_config sem urls =
     \<lparr>sem_value = sem, tasks = replicate (length urls) Pending, printed = [],
      trace = [], gather_exn = None\<rparr>"

text \<open>What \<^verbatim>\<open>gather\<close> keeps when a task ends: the first exception stays.\<close>

fun note_exn :: "exn option \<Rightarrow> exn + 'a \<Rightarrow> exn option" where
  "note_exn (Some e) x = Some e"
| "note_exn None (Inl e) = Some e"
| "note_exn None (Inr y) = None"

text \<open>
  One step of task \<open>i\<close>: it runs from its suspension point to the next one. A pending
  task passes \<^verbatim>\<open>Semaphore.acquire\<close> only while the counter is positive; leaving the
  \<^verbatim>\<open>async with\<close> block gives the permit back, whether the block ended by \<^verbatim>\<open>return\<close> or by
  an exception. A task that cannot move leaves the configuration as it is.
\<close>

definition step :: "env \<Rightarrow> int \<Rightarrow> string list \<Rightarrow> nat \<Rightarrow> config \<Rightarrow> config" where
  "step E delay urls i c =
     (if length (tasks c) \<le> i then c
      else case tasks c ! i of
        Pending \<Rightarrow>
          (if 0 < sem_value c
           then c\<lparr>sem_value := sem_value c - 1,
                  tasks := (tasks c)[i := Requesting],
                  trace := trace c @ [(i, Acquired), (i, RequestSent)]\<rparr>
           else c)
      | Requesting \<Rightarrow>
          (case net E i (urls ! i) of
             Responds r \<Rightarrow>
               c\<lparr>tasks := (tasks c)[i := Sleeping r],
                 trace := trace c @ [(i, ResponseReceived)]\<rparr>
           | Refuses e \<Rightarrow>
               c\<lparr>tasks := (tasks c)[i := Finishing (snd (handler (urls ! i) e))],
                 printed := printed c @ fst (handler (urls ! i) e),
                 trace := trace c @ [(i, RequestEnded)]\<rparr>)
      | Sleeping r \<Rightarrow>
          c\<lparr>tasks := (tasks c)[i := Reading r],
            trace := trace c @ [(i, DelayElapsed delay)]\<rparr>
      | Reading r \<Rightarrow>
          (case r of
             Body b \<Rightarrow>
               c\<lparr>tasks := (tasks c)[i := Finishing (Inr (Some b))],
                 trace := trace c @ [(i, RequestEnded)]\<rparr>
           | Fails e \<Rightarrow>
               c\<lparr>tasks := (tasks c)[i := Finishing (snd (handler (urls ! i) e))],
                 printed := printed c @ fst (handler (urls ! i) e),
                 trace := trace c @ [(i, RequestEnded)]\<rparr>)
      | Finishing x \<Rightarrow>
          c\<lparr>sem_value := sem_value c + 1,
            tasks := (tasks c)[i := Finished (after_fetch E x)],
            trace := trace c @ [(i, Released)],
            gather_exn := note_exn (gather_exn c) (after_fetch E x)\<rparr>
      | Finished x \<Rightarrow> c)"

text \<open>
  A schedule is the order in which the event loop resumes tasks. Every interleaving of
  the tasks is the run of some schedule; the loop of \<^verbatim>\<open>asyncio\<close> realises some of them.
\<close>

definition exec :: "env \<Rightarrow> int \<Rightarrow> string list \<Rightarrow> nat list \<Rightarrow> config \<Rightarrow> config" where
  "exec E delay urls sched c = fold (step E delay urls) sched c"

text \<open>A task is in flight between its acquisition of the semaphore and its release.\<close>

fun holding :: "phase \<Rightarrow> bool" where
  "holding Pending = False"
| "holding Requesting = True"
| "holding (Sleeping r) = True"
| "holding (Reading r) = True"
| "holding (Finishing x) = True"
| "holding (Finished x) = False"

definition in_flight :: "config \<Rightarrow> nat" where
  "in_flight c = length (filter holding (tasks c))"

text \<open>What task \<open>i\<close> did so far, in order.\<close>

definition task_trace :: "nat \<Rightarrow> config \<Rightarrow> event list" where
  "task_trace i c = map snd (filter (\<lambda>(j, ev). j = i) (trace c))"

text \<open>
  The two complete logs of a task: a request that got its response, waited for the delay
  and ended (by the body or by an exception of \<^verbatim>\<open>response.text()\<close>), and a request that
  ended without a response. \<open>log_at\<close> is the log a task has at each suspension point.
\<close>

definition answered :: "int \<Rightarrow> event list" where
  "answered delay =
     [Acquired, RequestSent, ResponseReceived, DelayElapsed delay, RequestEnded, Released]"

definition unanswered :: "event list" where
  "unanswered = [Acquired, RequestSent, RequestEnded, Released]"

fun log_at :: "int \<Rightarrow> phase \<Rightarrow> event list \<Rightarrow> bool" where
  "log_at d Pending t = (t = [])"
| "log_at d Requesting t = (t = [Acquired, RequestSent])"
| "log_at d (Sleeping r) t = (t = [Acquired, RequestSent, ResponseReceived])"
| "log_at d (Reading r) t =
     (t = [Acquired, RequestSent, ResponseReceived, DelayElapsed d])"
| "log_at d (Finishing x) t =
     (t = [Acquired, RequestSent, ResponseReceived, DelayElapsed d, RequestEnded] \<or>
      t = [Acquired, RequestSent, RequestEnded])"
| "log_at d (Finished x) t = (t = answered d \<or> t = unanswered)"

text \<open>
  \<^verbatim>\<open>run_until_complete\<close>: after the schedule is used up the loop goes on resuming the
  first task that can move, until none can. The number of steps left is bounded by the
  suspension points the tasks still have before them.
\<close>

fun can_move :: "config \<Rightarrow> nat \<Rightarrow> bool" where
  "can_move c i =
     (i < length (tasks c) \<and>
      (case tasks c ! i of
         Pending \<Rightarrow> 0 < sem_value c
       | Finished x \<Rightarrow> False
       | _ \<Rightarrow> True))"

fun remaining :: "phase \<Rightarrow> nat" where
  "remaining Pending = 5"
| "remaining Requesting = 4"
| "remaining (Sleeping r) = 3"
| "remaining (Reading r) = 2"
| "remaining (Finishing x) = 1"
| "remaining (Finished x) = 0"

definition work :: "config \<Rightarrow> nat" where
  "work c = sum_list (map remaining (tasks c))"

fun drain :: "env \<Rightarrow> int \<Rightarrow> string list \<Rightarrow> nat \<Rightarrow> config \<Rightarrow> config" where
  "drain E delay urls 0 c = c"
| "drain E delay urls (Suc n) c =
     (case find (can_move c) [0..<length (tasks c)] of
        None \<Rightarrow> c
      | Some i \<Rightarrow> drain E delay urls n (step E delay urls i c))"

definition run_until_complete ::
  "env \<Rightarrow> int \<Rightarrow> string list \<Rightarrow> nat list \<Rightarrow> config \<Rightarrow> config" where
  "run_until_complete E delay urls sched c =
     (let c' = exec E delay urls sched c in drain E delay urls (work c') c')"

text \<open>
  \<^verbatim>\<open>await asyncio.gather(*tasks)\<close>: it raises the first exception of a task, returns the
  results in the order of the tasks once all have returned, and otherwise never resumes.
\<close>

datatype 'a awaited = Returned 'a | Raised exn | Never

fun finished_value :: "phase \<Rightarrow> texts option option" where
  "finished_value (Finished (Inr x)) = Some x"
| "finished_value p = None"

definition gather :: "config \<Rightarrow> texts option list awaited" where
  "gather c =
     (case gather_exn c of
        Some e \<Rightarrow> Raised e
      | None \<Rightarrow>
          if list_all (\<lambda>p. finished_value p \<noteq> None) (tasks c)
          then Returned (map (\<lambda>p. the (finished_value p)) (tasks c))
          else Never)"

text \<open>
  The results of the units read one after the other, without any concurrency, and what
  it means for the phase of task \<open>i\<close> to agree with the answer of the network to it.
\<close>

definition unit_results :: "env \<Rightarrow> string list \<Rightarrow> (exn + texts option) list" where
  "unit_results E urls = map (\<lambda>i. scrape_data E i (urls ! i)) [0..<length urls]"

fun settled :: "env \<Rightarrow> string list \<Rightarrow> nat \<Rightarrow> phase \<Rightarrow> bool" where
  "settled E urls i Pending = True"
| "settled E urls i Requesting = True"
| "settled E urls i (Sleeping r) = (net E i (urls ! i) = Responds r)"
| "settled E urls i (Reading r) = (net E i (urls ! i) = Responds r)"
| "settled E urls i (Finishing x) =
     (x = snd (get_html_content (net E i (urls ! i)) (urls ! i)))"
| "settled E urls i (Finished x) = (x = scrape_data E i (urls ! i))"

text \<open>
  The exception kept for \<^verbatim>\<open>gather\<close> is the exception of a task that has ended, and
  there is one as soon as a task has ended by an exception.
\<close>

definition noted :: "config \<Rightarrow> bool" where
  "noted c =
     ((gather_exn c = None \<longrightarrow>
         (\<forall>k < length (tasks c). \<forall>e. tasks c ! k \<noteq> Finished (Inl e))) \<and>
      (\<forall>e. gather_exn c = Some e \<longrightarrow>
         (\<exists>k < length (tasks c). tasks c ! k = Finished (Inl e))))"

section \<open>Data frames\<close>

text \<open>
  A column label is a string or, for the default \<^verbatim>\<open>RangeIndex\<close> of columns, a position.
  A cell holds a value of \<^verbatim>\<open>texts\<close>, \<^verbatim>\<open>NaN\<close>, \<^verbatim>\<open>None\<close>, or a whole dictionary (an object
  column). A frame is stored by columns; its row index is always \<^verbatim>\<open>RangeIndex(nrows)\<close>.
\<close>

datatype label = Name string | Pos nat

datatype cell = Val val | NaN | PyNone | PyDict texts

record frame =
  nrows :: nat
  columns :: "(label \<times> cell list) list"

text \<open>Keys in order of first appearance (\<^verbatim>\<open>fast_unique_multiple_list_gen\<close>, unsorted).\<close>

definition unique_keys :: "string list \<Rightarrow> string list" where
  "unique_keys ks = fold (\<lambda>k seen. if k \<in> set seen then seen else seen @ [k]) ks []"

fun object_cell :: "texts option \<Rightarrow> cell" where
  "object_cell None = PyNone"
| "object_cell (Some d) = PyDict d"

definition dict_cell :: "string \<Rightarrow> texts \<Rightarrow> cell" where
  "dict_cell k d = (case map_of d k of Some v \<Rightarrow> Val v | None \<Rightarrow> NaN)"

text \<open>
  \<^verbatim>\<open>pd.DataFrame(results)\<close> for a list of dictionaries and \<^verbatim>\<open>None\<close>s. The constructor
  looks at the first element only to choose its path. An empty list gives the empty
  frame. A first element that is not list-like (\<^verbatim>\<open>None\<close>) makes the list one object
  column labelled \<open>0\<close>. A first element that is a dictionary takes the list-of-dicts
  path, which calls \<^verbatim>\<open>x.keys()\<close> on every element and so raises \<^verbatim>\<open>AttributeError\<close> on a
  later \<^verbatim>\<open>None\<close>; otherwise the columns are the keys in order of first appearance and a
  key absent from a dictionary gives \<^verbatim>\<open>NaN\<close>.
\<close>

fun DataFrame :: "texts option list \<Rightarrow> exn + frame" where
  "DataFrame [] = Inr \<lparr>nrows = 0, columns = []\<rparr>"
| "DataFrame (None # rs) =
     Inr \<lparr>nrows = Suc (length rs), columns = [(Pos 0, map object_cell (None # rs))]\<rparr>"
| "DataFrame (Some d # rs) =
     (if list_all (\<lambda>r. r \<noteq> None) rs
      then let ds = d # map the rs
           in Inr \<lparr>nrows = length ds,
                   columns = map (\<lambda>k. (Name k, map (dict_cell k) ds))
                                 (unique_keys (concat (map (map fst) ds)))\<rparr>
      else Inl (AttributeError
                  ([CHR 0x27] @ ''NoneType'' @ [CHR 0x27] @ '' object has no attribute '' @
                   [CHR 0x27] @ ''keys'' @ [CHR 0x27])))"

text \<open>
  \<^verbatim>\<open>pd.concat([a, b], axis=1)\<close> of two frames with range indexes: the rows are matched by
  position, the shorter frame is filled with \<^verbatim>\<open>NaN\<close>.
\<close>

definition pad :: "nat \<Rightarrow> label \<times> cell list \<Rightarrow> label \<times> cell list" where
  "pad n col = (fst col, snd col @ replicate (n - length (snd col)) NaN)"

definition concat_axis1 :: "frame \<Rightarrow> frame \<Rightarrow> frame" where
  "concat_axis1 a b =
     (let n = max (nrows a) (nrows b)
      in \<lparr>nrows = n, columns = map (pad n) (columns a) @ map (pad n) (columns b)\<rparr>)"

text \<open>
  A written table: the header line and the data lines, cell by cell. \<^verbatim>\<open>to_csv\<close> with
  \<^verbatim>\<open>index=True\<close> puts the row number before every line under an empty label; with
  \<^verbatim>\<open>index=False\<close> it writes the columns only. Quoting and the text of each cell are not
  modelled.
\<close>

datatype field = Cell cell | RowNumber nat

record sheet =
  header :: "label list"
  records :: "field list list"

definition row_of :: "frame \<Rightarrow> nat \<Rightarrow> cell list" where
  "row_of df i = map (\<lambda>col. snd col ! i) (columns df)"

definition to_csv :: "frame \<Rightarrow> bool \<Rightarrow> sheet" where
  "to_csv df index =
     (if index
      then \<lparr>header = Name [] # map fst (columns df),
            records = map (\<lambda>i. RowNumber i # map Cell (row_of df i)) [0..<nrows df]\<rparr>
      else \<lparr>header = map fst (columns df),
            records = map (\<lambda>i. map Cell (row_of df i)) [0..<nrows df]\<rparr>)"

section \<open>The \<^verbatim>\<open>Scraper\<close> methods and \<^verbatim>\<open>main\<close>\<close>

text \<open>
  The world outside the process: the input files (each as its parsed columns, every cell
  read as text), the files written, the console, and the URLs requested from the network.
\<close>

record world =
  inputs :: "string \<rightharpoonup> (string \<times> string list) list"
  outputs :: "string \<rightharpoonup> sheet"
  console :: "string list"
  requested :: "string list"

text \<open>
  \<^verbatim>\<open>load_data\<close>: \<^verbatim>\<open>pd.read_csv\<close> fails on a missing file, \<^verbatim>\<open>self.df[["url"]]\<close> raises
  \<^verbatim>\<open>KeyError\<close> when no column is named \<^verbatim>\<open>url\<close>. The result is the one-column frame.
\<close>

definition load_data :: "world \<Rightarrow> string \<Rightarrow> exn + string list" where
  "load_data w file_path =
     (case inputs w file_path of
        None \<Rightarrow> Inl (FileNotFoundError file_path)
      | Some csv \<Rightarrow>
          (case map_of csv ''url'' of
             None \<Rightarrow> Inl (KeyError ''url'')
           | Some urls \<Rightarrow> Inr urls))"

definition url_frame :: "string list \<Rightarrow> frame" where
  "url_frame urls =
     \<lparr>nrows = length urls, columns = [(Name ''url'', map (\<lambda>u. Val (Str u)) urls)]\<rparr>"

datatype status = Completed | Failed exn | Hangs

text \<open>
  \<^verbatim>\<open>scrape_all\<close>: the tasks are created in the order of the column, the loop runs them
  under the schedule, and the gathered results are made a frame and put beside the URLs.
\<close>

definition assemble :: "string list \<Rightarrow> texts option list \<Rightarrow> exn + frame" where
  "assemble urls results =
     (case DataFrame results of
        Inl e \<Rightarrow> Inl e
      | Inr scraped_df \<Rightarrow> Inr (concat_axis1 (url_frame urls) scraped_df))"

definition scrape_all ::
  "env \<Rightarrow> int \<Rightarrow> int \<Rightarrow> string list \<Rightarrow> nat list \<Rightarrow> (status \<times> frame) \<times> config" where
  "scrape_all E delay sem urls sched =
     (let c = run_until_complete E delay urls sched (init_config sem urls)
      in (case gather c of
            Never \<Rightarrow> (Hangs, url_frame urls)
          | Raised e \<Rightarrow> (Failed e, url_frame urls)
          | Returned results \<Rightarrow>
              (case assemble urls results of
                 Inl e \<Rightarrow> (Failed e, url_frame urls)
               | Inr df \<Rightarrow> (Completed, df)),
          c))"

definition save_results :: "frame \<Rightarrow> string \<Rightarrow> world \<Rightarrow> world" where
  "save_results df output_file w =
     w\<lparr>outputs := (outputs w)(output_file \<mapsto> to_csv df False),
       console := console w @ [''Results saved to '' @ output_file]\<rparr>"

text \<open>\<^verbatim>\<open>str(n)\<close> for a natural number, as the f-string of \<^verbatim>\<open>print_results\<close> formats it.\<close>

fun str_nat :: "nat \<Rightarrow> string" where
  "str_nat n =
     (if n < 10 then [char_of (48 + n)]
      else str_nat (n div 10) @ [char_of (48 + n mod 10)])"

declare str_nat.simps [simp del]

text \<open>
  \<^verbatim>\<open>print_results\<close>: the elapsed time is read from the clock of the environment, already
  formatted by \<^verbatim>\<open>format_time\<close> (a floating-point number of seconds, minutes or hours);
  the preview of the first five rows is not modelled.
\<close>

definition print_results :: "env \<Rightarrow> frame \<Rightarrow> world \<Rightarrow> world" where
  "print_results E df w =
     w\<lparr>console := console w @
          [''It took '' @ clock E @ '' to find '' @ str_nat (nrows df) @ '' articles'']\<rparr>"

definition requests_of :: "string list \<Rightarrow> config \<Rightarrow> string list" where
  "requests_of urls c =
     map (\<lambda>(i, ev). urls ! i) (filter (\<lambda>(i, ev). ev = RequestSent) (trace c))"

definition main ::
  "env \<Rightarrow> string \<Rightarrow> int \<Rightarrow> int \<Rightarrow> string \<Rightarrow> nat list \<Rightarrow> world \<Rightarrow> status \<times> world" where
  "main E file_path delay max_requests output_file sched w =
     (case Semaphore max_requests of
        Inl e \<Rightarrow> (Failed e, w)
      | Inr sem \<Rightarrow>
          (case load_data w file_path of
             Inl e \<Rightarrow> (Failed e, w)
           | Inr urls \<Rightarrow>
               (case scrape_all E delay sem urls sched of
                  ((st, df), c) \<Rightarrow>
                    (let w1 = w\<lparr>console := console w @ printed c,
                                requested := requested w @ requests_of urls c\<rparr>
                     in if st = Completed
                        then (Completed, print_results E df (save_results df output_file w1))
                        else (st, w1)))))"

section \<open>Concrete inputs\<close>

definition page :: env where
  "page = \<lparr>net = (\<lambda>i u. Responds (Body ''<html>'')),
           BeautifulSoup =
             (\<lambda>h. Some (\<lambda>s. if s = ''div#grants.grants'' then ['' NIH  '', ''ERC''] else [])),
           clock = []\<rparr>"

definition blank :: env where
  "blank = \<lparr>net = (\<lambda>i u. Responds (Body [])), BeautifulSoup = (\<lambda>h. Some (\<lambda>s. [])),
            clock = []\<rparr>"

text \<open>
  A network that answers every request with the text \<^verbatim>\<open><![foo]]>\<close>. The parser of the
  standard library refuses this marked section (unknown status keyword), and
  \<^verbatim>\<open>BeautifulSoup\<close> raises \<^verbatim>\<open>ParserRejectedMarkup\<close> on it.
\<close>

definition strict :: env where
  "strict = \<lparr>net = (\<lambda>i u. Responds (Body ''<![foo]]>'')),
             BeautifulSoup = (\<lambda>h. if h = ''<![foo]]>'' then None else Some (\<lambda>s. [])),
             clock = []\<rparr>"

text \<open>
  A network in which every URL answers with a page of its own, whose title names the URL.
\<close>

definition pages :: env where
  "pages = \<lparr>net = (\<lambda>i u. Responds (Body (''page of '' @ u))),
            BeautifulSoup =
              (\<lambda>h. Some (\<lambda>s. if s = ''header#heading.heading div#full-view-heading.full-view h1.heading-title''
                            then [h] else [])),
            clock = []\<rparr>"

text \<open>
  A network in which \<^verbatim>\<open>https://a\<close> answers with a page, \<^verbatim>\<open>https://b\<close> times out and
  \<^verbatim>\<open>https://c\<close> resets the connection; every other URL answers with a page.
\<close>

definition web :: env where
  "web = \<lparr>net = (\<lambda>i u. if u = ''https://b'' then Refuses TimeoutError
                        else if u = ''https://c'' then Refuses (ClientError ''connection reset'')
                        else Responds (Body ''<html>'')),
          BeautifulSoup =
            (\<lambda>h. Some (\<lambda>s. if s = ''div#grants.grants'' then ['' NIH  '', ''ERC''] else [])),
          clock = ''3.5 seconds''\<rparr>"

definition disk :: world where
  "disk = \<lparr>inputs = [''ab.csv'' \<mapsto> [(''url'', [''https://a'', ''https://b''])],
                     ''a.csv'' \<mapsto> [(''id'', [''7'']), (''url'', [''https://a''])],
                     ''b.csv'' \<mapsto> [(''url'', [''https://b''])],
                     ''ac.csv'' \<mapsto> [(''url'', [''https://a'', ''https://c''])],
                     ''none.csv'' \<mapsto> [(''url'', [])],
                     ''links.csv'' \<mapsto> [(''link'', [''https://a''])]],
           outputs = Map.empty, console = [], requested = []\<rparr>"

section \<open>Field extraction\<close>


lemma setitem_fresh: "k \<notin> fst ` set d \<Longrightarrow> setitem d k v = d @ [(k, v)]"
  by (induction d) auto

lemma fold_setitem_fresh:
  "distinct (map fst es) \<Longrightarrow> fst ` set es \<inter> fst ` set acc = {} \<Longrightarrow>
   fold (\<lambda>(k, s) t. setitem t k (f s)) es acc = acc @ map (\<lambda>(k, s). (k, f s)) es"
proof (induction es arbitrary: acc)
  case Nil
  then show ?case by simp
next
  case (Cons p es)
  obtain k s where p: "p = (k, s)" by (cases p)
  from Cons.prems p have fresh: "k \<notin> fst ` set acc" by auto
  have step: "setitem acc k (f s) = acc @ [(k, f s)]"
    using fresh by (rule setitem_fresh)
  from Cons.prems p have d: "distinct (map fst es)" by simp
  from Cons.prems p have "fst ` set es \<inter> fst ` set (acc @ [(k, f s)]) = {}"
    by auto
  from Cons.IH [OF d this] show ?case
    by (simp add: p step)
qed

lemma distinct_element_keys: "distinct (map fst elements)"
  by (simp add: elements_def)

lemma element_keys: "map fst elements = field_names"
  by (simp add: elements_def field_names_def)

lemma extract_texts_map:
  "extract_texts sp = map (\<lambda>(k, s). (k, field_text (sp s))) elements"
  unfolding extract_texts_def
  using fold_setitem_fresh [OF distinct_element_keys, of "[]" "\<lambda>s. field_text (sp s)"]
  by simp





lemma extract_texts_shape:
  "map fst (extract_texts sp) = field_names \<and> length (extract_texts sp) = 12 \<and>
   ((\<forall>selector \<in> snd ` set elements. sp selector = []) \<longrightarrow>
      map snd (extract_texts sp) = replicate 12 NA)"
proof -
  let ?t = "extract_texts sp"
  have keys: "map fst ?t = field_names"
    unfolding extract_texts_map using element_keys by (simp add: case_prod_unfold comp_def)
  have len: "length ?t = 12"
    unfolding extract_texts_map by (simp add: elements_def)
  have absent: "map snd ?t = replicate 12 NA"
    if "\<forall>selector \<in> snd ` set elements. sp selector = []"
  proof -
    have "map snd ?t = map (\<lambda>p. field_text (sp (snd p))) elements"
      unfolding extract_texts_map by (simp add: case_prod_unfold comp_def)
    also have "\<dots> = map (\<lambda>p. NA) elements"
      using that by (intro map_cong refl) (simp add: field_text_def)
    also have "\<dots> = replicate 12 NA"
      by (simp add: elements_def eval_nat_numeral)
    finally show ?thesis .
  qed
  show ?thesis using keys len absent by simp
qed

text \<open>
  C6, as amended. For every document text that the parser accepts, extraction returns a
  result with exactly the twelve keys, in the order of the table of selectors, each with
  a text or the absent marker; a document in which no selector matches gives twelve
  absent fields.
\<close>

theorem extraction_twelve_keys_of_parsed_document:
  assumes "BeautifulSoup E html = Some sp"
  shows "\<exists>t. after_fetch E (Inr (Some html)) = Inr (Some t) \<and>
             map fst t = field_names \<and> length t = 12 \<and>
             ((\<forall>selector \<in> snd ` set elements. sp selector = []) \<longrightarrow>
                map snd t = replicate 12 NA)"
  using assms extract_texts_shape [of sp] by simp

theorem extraction_twelve_keys_of_parsed_document_witness:
  "BeautifulSoup blank [] = Some (\<lambda>s. []) \<and>
   list_all (\<lambda>selector. (\<lambda>s. []) selector = ([] :: string list)) (map snd elements) \<and>
   after_fetch blank (Inr (Some [])) = Inr (Some (map (\<lambda>k. (k, NA)) field_names))"
proof -
  have p: "BeautifulSoup blank [] = Some (\<lambda>s. [])" by (simp add: blank_def)
  from extraction_twelve_keys_of_parsed_document [OF p]
  obtain t where t: "after_fetch blank (Inr (Some [])) = Inr (Some t)"
    and k: "map fst t = field_names" and v: "map snd t = replicate 12 NA"
    by auto
  have "t = zip (map fst t) (map snd t)" by (simp add: zip_map_fst_snd)
  also have "\<dots> = map (\<lambda>k. (k, NA)) field_names"
    unfolding k v by (simp add: field_names_def eval_nat_numeral)
  finally have "after_fetch blank (Inr (Some [])) = Inr (Some (map (\<lambda>k. (k, NA)) field_names))"
    using t by simp
  moreover have "list_all (\<lambda>selector. (\<lambda>s. []) selector = ([] :: string list)) (map snd elements)"
    by (simp add: list_all_iff)
  ultimately show ?thesis using p by simp
qed

text \<open>
  The claim C6 as it stands is false: extraction is not total. On the document text
  \<^verbatim>\<open><![foo]]>\<close> the parser raises, so \<^verbatim>\<open>scrape_data\<close> raises instead of returning twelve
  absent fields.
\<close>

theorem rejected_markup_makes_extraction_raise:
  "after_fetch strict (Inr (Some ''<![foo]]>'')) = Inl ParserRejectedMarkup \<and>
   scrape_data strict 0 ''https://a'' = Inl ParserRejectedMarkup"
  by (simp add: strict_def scrape_data_def)

section \<open>The semaphore bounds the fetches in flight\<close>


lemma length_tasks_step [simp]:
  "length (tasks (step E delay urls i c)) = length (tasks c)"
  by (simp add: step_def split: phase.split outcome.split reply.split)

lemma length_tasks_exec [simp]:
  "length (tasks (exec E delay urls sched c)) = length (tasks c)"
  unfolding exec_def by (induction sched arbitrary: c) simp_all

lemma count_update:
  "i < length ps \<Longrightarrow>
   length (filter P (ps[i := q])) + (if P (ps ! i) then 1 else 0)
     = length (filter P ps) + (if P q then 1 else 0)"
proof (induction ps arbitrary: i)
  case Nil
  then show ?case by simp
next
  case (Cons p ps)
  show ?case
  proof (cases i)
    case 0
    then show ?thesis by simp
  next
    case (Suc j)
    with Cons.prems have "j < length ps" by simp
    from Cons.IH [OF this] Suc show ?thesis by simp
  qed
qed

lemma permits_step:
  "sem_value (step E delay urls i c) + int (in_flight (step E delay urls i c))
     = sem_value c + int (in_flight c)"
proof (cases "i < length (tasks c)")
  case False
  then show ?thesis by (simp add: step_def)
next
  case True
  note upd = count_update [OF True, of holding]
  show ?thesis
  proof (cases "tasks c ! i")
    case Pending
    then show ?thesis using True upd [of Requesting]
      by (simp add: step_def in_flight_def)
  next
    case Requesting
    then show ?thesis
      using True upd [of "Sleeping r" for r] upd [of "Finishing x" for x]
      by (simp add: step_def in_flight_def split: outcome.split)
  next
    case (Sleeping r)
    then show ?thesis using True upd [of "Reading r"]
      by (simp add: step_def in_flight_def)
  next
    case (Reading r)
    then show ?thesis using True upd [of "Finishing x" for x]
      by (simp add: step_def in_flight_def split: reply.split)
  next
    case (Finishing x)
    then show ?thesis using True upd [of "Finished (after_fetch E x)"]
      by (simp add: step_def in_flight_def)
  next
    case (Finished x)
    then show ?thesis using True by (simp add: step_def)
  qed
qed

lemma sem_value_step_nonneg:
  "0 \<le> sem_value c \<Longrightarrow> 0 \<le> sem_value (step E delay urls i c)"
  by (simp add: step_def split: phase.split outcome.split reply.split)

lemma permits_exec:
  "sem_value (exec E delay urls sched c) + int (in_flight (exec E delay urls sched c))
     = sem_value c + int (in_flight c)"
  unfolding exec_def
proof (induction sched arbitrary: c)
  case Nil
  show ?case by simp
next
  case (Cons i sched)
  show ?case using Cons.IH [of "step E delay urls i c"] permits_step [of E delay urls i c]
    by simp
qed

lemma sem_value_exec_nonneg:
  "0 \<le> sem_value c \<Longrightarrow> 0 \<le> sem_value (exec E delay urls sched c)"
  unfolding exec_def
  by (induction sched arbitrary: c) (simp_all add: sem_value_step_nonneg)

lemma in_flight_init [simp]: "in_flight (init_config sem urls) = 0"
  by (simp add: in_flight_def init_config_def)

lemma sem_value_init [simp]: "sem_value (init_config sem urls) = sem"
  by (simp add: init_config_def)

text \<open>
  C2. At every moment of a run of \<^verbatim>\<open>scrape_all\<close>, under every order in which the event
  loop resumes the tasks, the number of tasks between the acquisition and the release of
  the semaphore is at most \<^verbatim>\<open>max_requests\<close>. Every configuration of a run is the
  configuration after some schedule, and the schedule here is arbitrary.
\<close>

theorem in_flight_bounded:
  assumes "Semaphore max_requests = Inr sem"
  shows "int (in_flight (exec E delay urls sched (init_config sem urls))) \<le> max_requests"
proof -
  from assms have sem: "sem = max_requests" and nonneg: "0 \<le> sem"
    by (auto simp: Semaphore_def split: if_splits)
  let ?c = "exec E delay urls sched (init_config sem urls)"
  have "sem_value ?c + int (in_flight ?c) = sem"
    using permits_exec [of E delay urls sched "init_config sem urls"] by simp
  moreover have "0 \<le> sem_value ?c"
    using nonneg by (intro sem_value_exec_nonneg) simp
  ultimately show ?thesis using sem by linarith
qed

theorem in_flight_bounded_witness:
  "Semaphore 1 = Inr 1 \<and>
   int (in_flight (exec page 1 [''a'', ''b''] [0, 1, 0, 1] (init_config 1 [''a'', ''b''])))
     \<le> 1"
  using in_flight_bounded [of 1 1 page 1 "[''a'', ''b'']" "[0, 1, 0, 1]"]
  by (simp add: Semaphore_def)

section \<open>The permit is held over the request and the delay\<close>


lemma step_other:
  "i \<noteq> j \<Longrightarrow> tasks (step E delay urls j c) ! i = tasks c ! i \<and>
     task_trace i (step E delay urls j c) = task_trace i c"
  by (simp add: step_def task_trace_def split: phase.split outcome.split reply.split)

lemma step_self:
  assumes "j < length (tasks c)" and "log_at delay (tasks c ! j) (task_trace j c)"
  shows "log_at delay (tasks (step E delay urls j c) ! j) (task_trace j (step E delay urls j c))"
proof (cases "tasks c ! j")
  case Pending
  then show ?thesis using assms by (simp add: step_def task_trace_def)
next
  case Requesting
  then show ?thesis using assms
    by (simp add: step_def task_trace_def split: outcome.split)
next
  case (Sleeping r)
  then show ?thesis using assms by (simp add: step_def task_trace_def)
next
  case (Reading r)
  then show ?thesis using assms
    by (simp add: step_def task_trace_def split: reply.split)
next
  case (Finishing x)
  then show ?thesis using assms
    by (auto simp add: step_def task_trace_def answered_def unanswered_def)
next
  case (Finished x)
  then show ?thesis using assms by (simp add: step_def)
qed

lemma log_step:
  assumes "\<forall>i < length (tasks c). log_at delay (tasks c ! i) (task_trace i c)"
  shows "\<forall>i < length (tasks (step E delay urls j c)).
           log_at delay (tasks (step E delay urls j c) ! i) (task_trace i (step E delay urls j c))"
proof (intro allI impI)
  fix i assume "i < length (tasks (step E delay urls j c))"
  then have i: "i < length (tasks c)" by simp
  show "log_at delay (tasks (step E delay urls j c) ! i) (task_trace i (step E delay urls j c))"
  proof (cases "i = j")
    case True
    with i assms show ?thesis using step_self [of j c delay E urls] by simp
  next
    case False
    with i assms show ?thesis using step_other [of i j E delay urls c] by simp
  qed
qed

lemma log_exec:
  assumes "\<forall>i < length (tasks c). log_at delay (tasks c ! i) (task_trace i c)"
  shows "\<forall>i < length (tasks (exec E delay urls sched c)).
           log_at delay (tasks (exec E delay urls sched c) ! i)
             (task_trace i (exec E delay urls sched c))"
  using assms unfolding exec_def
proof (induction sched arbitrary: c)
  case Nil
  then show ?case by simp
next
  case (Cons j sched)
  from Cons.IH [OF log_step [OF Cons.prems]] show ?case by simp
qed

lemma log_init:
  "\<forall>i < length (tasks (init_config sem urls)).
     log_at delay (tasks (init_config sem urls) ! i) (task_trace i (init_config sem urls))"
  by (simp add: init_config_def task_trace_def)

lemma log_at_window:
  assumes "log_at d p t"
  shows "(prefix t (answered d) \<or> prefix t unanswered) \<and>
         holding p = (Acquired \<in> set t \<and> Released \<notin> set t)"
  using assms by (cases p) (auto simp: answered_def unanswered_def)

text \<open>
  C5. For every fetch, under every schedule and at every moment, what the task has done
  so far is an initial part of one of two logs. In both the permit is acquired before the
  request is sent and released only after the request has ended, by a result or by an
  exception; when there is a response, the delay elapses after it and before the
  release. The task counts as in flight exactly from its acquisition to its release.
\<close>

theorem permit_window_covers_request_and_delay:
  assumes "i < length urls"
  shows "(prefix (task_trace i (exec E delay urls sched (init_config sem urls))) (answered delay) \<or>
          prefix (task_trace i (exec E delay urls sched (init_config sem urls))) unanswered) \<and>
         holding (tasks (exec E delay urls sched (init_config sem urls)) ! i) =
           (Acquired \<in> set (task_trace i (exec E delay urls sched (init_config sem urls))) \<and>
            Released \<notin> set (task_trace i (exec E delay urls sched (init_config sem urls))))"
proof -
  let ?c = "exec E delay urls sched (init_config sem urls)"
  have "i < length (tasks ?c)" using assms by (simp add: init_config_def)
  with log_exec [OF log_init, of E delay urls sched sem urls]
  have "log_at delay (tasks ?c ! i) (task_trace i ?c)" by blast
  then show ?thesis by (rule log_at_window)
qed

theorem permit_window_covers_request_and_delay_witness:
  "(0::nat) < length [''a'', ''b''] \<and>
   prefix (task_trace 0 (exec page 7 [''a'', ''b''] [0, 1, 0, 0] (init_config 2 [''a'', ''b''])))
     (answered 7) \<and>
   holding (tasks (exec page 7 [''a'', ''b''] [0, 1, 0, 0] (init_config 2 [''a'', ''b''])) ! 0)"
  using permit_window_covers_request_and_delay
          [of 0 "[''a'', ''b'']" page 7 "[0, 1, 0, 0]" 2]
  by (simp add: exec_def step_def init_config_def task_trace_def answered_def page_def)

section \<open>The results of a run do not depend on the schedule\<close>


lemma settled_step_self:
  assumes "j < length (tasks c)" and "settled E urls j (tasks c ! j)"
  shows "settled E urls j (tasks (step E delay urls j c) ! j)"
proof (cases "tasks c ! j")
  case Pending
  then show ?thesis using assms by (simp add: step_def)
next
  case Requesting
  then show ?thesis using assms
    by (auto simp add: step_def split: outcome.split)
next
  case (Sleeping r)
  then show ?thesis using assms by (simp add: step_def)
next
  case (Reading r)
  then show ?thesis using assms
    by (auto simp add: step_def split: reply.split)
next
  case (Finishing x)
  then show ?thesis using assms by (simp add: step_def scrape_data_def)
next
  case (Finished x)
  then show ?thesis using assms by (simp add: step_def)
qed

lemma settled_step:
  assumes "\<forall>i < length (tasks c). settled E urls i (tasks c ! i)"
  shows "\<forall>i < length (tasks (step E delay urls j c)).
           settled E urls i (tasks (step E delay urls j c) ! i)"
proof (intro allI impI)
  fix i assume "i < length (tasks (step E delay urls j c))"
  then have i: "i < length (tasks c)" by simp
  show "settled E urls i (tasks (step E delay urls j c) ! i)"
  proof (cases "i = j")
    case True
    with i assms show ?thesis using settled_step_self [of j c E urls delay] by simp
  next
    case False
    with i assms show ?thesis using step_other [of i j E delay urls c] by simp
  qed
qed

lemma settled_exec:
  assumes "\<forall>i < length (tasks c). settled E urls i (tasks c ! i)"
  shows "\<forall>i < length (tasks (exec E delay urls sched c)).
           settled E urls i (tasks (exec E delay urls sched c) ! i)"
  using assms unfolding exec_def
proof (induction sched arbitrary: c)
  case Nil
  then show ?case by simp
next
  case (Cons j sched)
  from Cons.IH [OF settled_step [OF Cons.prems]] show ?case by simp
qed

lemma settled_init:
  "\<forall>i < length (tasks (init_config sem urls)).
     settled E urls i (tasks (init_config sem urls) ! i)"
  by (simp add: init_config_def)


lemma finished_stays:
  "tasks c ! k = Finished x \<Longrightarrow> tasks (step E delay urls j c) ! k = Finished x"
proof (cases "k = j")
  case True
  assume "tasks c ! k = Finished x"
  with True show ?thesis by (simp add: step_def)
next
  case False
  assume "tasks c ! k = Finished x"
  with False show ?thesis using step_other [of k j E delay urls c] by simp
qed

lemma step_new_finished:
  assumes "tasks (step E delay urls j c) ! k = Finished y" and "\<forall>x. tasks c ! k \<noteq> Finished x"
  shows "k = j \<and> k < length (tasks c) \<and>
         gather_exn (step E delay urls j c) = note_exn (gather_exn c) y"
proof -
  have kj: "k = j"
  proof (rule ccontr)
    assume "k \<noteq> j"
    then have "tasks (step E delay urls j c) ! k = tasks c ! k"
      using step_other [of k j E delay urls c] by simp
    with assms show False by simp
  qed
  have len: "j < length (tasks c)"
  proof (rule ccontr)
    assume "\<not> j < length (tasks c)"
    then have "step E delay urls j c = c" by (simp add: step_def)
    with assms kj show False by simp
  qed
  from assms kj len show ?thesis
    by (cases "tasks c ! j")
       (auto simp: step_def split: if_splits outcome.splits reply.splits)
qed

lemma step_gather_exn_other:
  assumes "\<forall>y. tasks (step E delay urls j c) ! j \<noteq> Finished y \<or> tasks c ! j = Finished y"
  shows "gather_exn (step E delay urls j c) = gather_exn c"
proof (cases "j < length (tasks c)")
  case False
  then show ?thesis by (simp add: step_def)
next
  case True
  with assms show ?thesis
    by (cases "tasks c ! j")
       (auto simp: step_def split: if_splits outcome.splits reply.splits)
qed


lemma gather_exn_kept:
  "gather_exn c = Some e \<Longrightarrow> gather_exn (step E delay urls j c) = Some e"
  by (simp add: step_def split: phase.split outcome.split reply.split)

lemma noted_step:
  assumes "noted c"
  shows "noted (step E delay urls j c)"
proof -
  let ?c' = "step E delay urls j c"
  have clean: "tasks ?c' ! k \<noteq> Finished (Inl e)"
    if none: "gather_exn ?c' = None" and k: "k < length (tasks ?c')" for k e
  proof
    assume fin: "tasks ?c' ! k = Finished (Inl e)"
    have old: "gather_exn c = None"
    proof (cases "gather_exn c")
      case (Some e')
      from gather_exn_kept [OF this, of E delay urls j] none show ?thesis by simp
    qed simp
    show False
    proof (cases "\<exists>x. tasks c ! k = Finished x")
      case True
      then obtain x where x: "tasks c ! k = Finished x" by blast
      from finished_stays [OF x, of E delay urls j] fin have "x = Inl e" by simp
      with x assms old k show False by (simp add: noted_def)
    next
      case False
      then have "\<forall>x. tasks c ! k \<noteq> Finished x" by blast
      from step_new_finished [OF fin this] old none show False by simp
    qed
  qed
  have found: "\<exists>k < length (tasks ?c'). tasks ?c' ! k = Finished (Inl e)"
    if some: "gather_exn ?c' = Some e" for e
  proof (cases "gather_exn c")
    case (Some e')
    from gather_exn_kept [OF this, of E delay urls j] some have "e' = e" by simp
    with Some assms obtain k where k: "k < length (tasks c)" "tasks c ! k = Finished (Inl e)"
      by (auto simp: noted_def)
    from finished_stays [OF k(2), of E delay urls j] k(1) show ?thesis by auto
  next
    case None
    with some have "gather_exn ?c' \<noteq> gather_exn c" by simp
    with step_gather_exn_other [of E delay urls j c]
    obtain y where y: "tasks ?c' ! j = Finished y" "tasks c ! j \<noteq> Finished y" by blast
    have fresh: "\<forall>x. tasks c ! j \<noteq> Finished x"
    proof (intro allI notI)
      fix x assume x: "tasks c ! j = Finished x"
      from finished_stays [OF x, of E delay urls j] y show False using x by simp
    qed
    from step_new_finished [OF y(1) fresh] None some
    have j: "j < length (tasks c)" and "note_exn None y = Some e" by simp_all
    then have "y = Inl e" by (cases y) simp_all
    with y(1) j show ?thesis by auto
  qed
  show ?thesis unfolding noted_def using clean found by blast
qed

lemma noted_exec: "noted c \<Longrightarrow> noted (exec E delay urls sched c)"
  unfolding exec_def by (induction sched arbitrary: c) (simp_all add: noted_step)

lemma noted_init: "noted (init_config sem urls)"
  by (simp add: noted_def init_config_def)

lemma sum_update_less:
  "i < length ps \<Longrightarrow> f q < f (ps ! i) \<Longrightarrow>
   sum_list (map f (ps[i := q])) < (sum_list (map f ps) :: nat)"
proof (induction ps arbitrary: i)
  case Nil
  then show ?case by simp
next
  case (Cons p ps)
  show ?case
  proof (cases i)
    case 0
    with Cons.prems show ?thesis by simp
  next
    case (Suc k)
    with Cons.prems have "k < length ps" "f q < f (ps ! k)" by simp_all
    from Cons.IH [OF this] Suc show ?thesis by simp
  qed
qed

lemma work_step:
  assumes "can_move c i"
  shows "work (step E delay urls i c) < work c"
proof -
  from assms have i: "i < length (tasks c)" by simp
  note less = sum_update_less [OF i, of remaining]
  show ?thesis
  proof (cases "tasks c ! i")
    case Pending
    then show ?thesis using assms i less [of Requesting]
      by (simp add: step_def work_def)
  next
    case Requesting
    then show ?thesis using i less [of "Sleeping r" for r] less [of "Finishing x" for x]
      by (simp add: step_def work_def split: outcome.split)
  next
    case (Sleeping r)
    then show ?thesis using i less [of "Reading r"] by (simp add: step_def work_def)
  next
    case (Reading r)
    then show ?thesis using i less [of "Finishing x" for x]
      by (simp add: step_def work_def split: reply.split)
  next
    case (Finishing x)
    then show ?thesis using i less [of "Finished (after_fetch E x)"]
      by (simp add: step_def work_def)
  next
    case (Finished x)
    then show ?thesis using assms by simp
  qed
qed

lemma drain_exec:
  "\<exists>more. drain E delay urls n c = exec E delay urls more c"
proof (induction n arbitrary: c)
  case 0
  have "drain E delay urls 0 c = exec E delay urls [] c" by (simp add: exec_def)
  then show ?case by blast
next
  case (Suc n)
  show ?case
  proof (cases "find (can_move c) [0..<length (tasks c)]")
    case None
    then have "drain E delay urls (Suc n) c = exec E delay urls [] c"
      by (simp add: exec_def)
    then show ?thesis by blast
  next
    case (Some i)
    from Suc.IH [of "step E delay urls i c"] obtain more where
      "drain E delay urls n (step E delay urls i c) = exec E delay urls more (step E delay urls i c)"
      by blast
    with Some have "drain E delay urls (Suc n) c = exec E delay urls (i # more) c"
      by (simp add: exec_def)
    then show ?thesis by blast
  qed
qed

lemma drain_stuck:
  "work c \<le> n \<Longrightarrow> \<not> can_move (drain E delay urls n c) i"
proof (induction n arbitrary: c)
  case 0
  then have "work c = 0" by simp
  then have all0: "\<forall>p \<in> set (tasks c). remaining p = 0" by (simp add: work_def)
  show ?case
  proof
    assume mv: "can_move (drain E delay urls 0 c) i"
    then have i: "i < length (tasks c)" by simp
    with all0 have "remaining (tasks c ! i) = 0" by simp
    then obtain x where "tasks c ! i = Finished x" by (cases "tasks c ! i") simp_all
    with mv show False by simp
  qed
next
  case (Suc n)
  show ?case
  proof (cases "find (can_move c) [0..<length (tasks c)]")
    case None
    then have none: "\<forall>k < length (tasks c). \<not> can_move c k"
      by (simp add: find_None_iff)
    have "\<not> can_move c i"
    proof (cases "i < length (tasks c)")
      case True
      with none show ?thesis by blast
    next
      case False
      then show ?thesis by simp
    qed
    with None show ?thesis by simp
  next
    case (Some k)
    then have "can_move c k" by (auto simp: find_Some_iff)
    from work_step [OF this, of E delay urls] Suc.prems
    have "work (step E delay urls k c) \<le> n" by simp
    from Suc.IH [OF this] Some show ?thesis by simp
  qed
qed

lemma stuck_all_finished:
  assumes permits: "sem_value c + int (in_flight c) = sem" and sem: "1 \<le> sem"
    and stuck: "\<forall>i. \<not> can_move c i" and k: "k < length (tasks c)"
  shows "\<exists>x. tasks c ! k = Finished x"
proof -
  have idle: "tasks c ! i = Pending \<or> (\<exists>x. tasks c ! i = Finished x)"
    if "i < length (tasks c)" for i
    using stuck [rule_format, of i] that by (cases "tasks c ! i") simp_all
  have "\<not> holding p" if "p \<in> set (tasks c)" for p
  proof -
    from that obtain i where "i < length (tasks c)" "p = tasks c ! i"
      by (auto simp: in_set_conv_nth)
    with idle [of i] show ?thesis by auto
  qed
  then have "filter holding (tasks c) = []" by (simp add: filter_empty_conv)
  then have "in_flight c = 0" by (simp add: in_flight_def)
  with permits sem have pos: "0 < sem_value c" by simp
  from idle [OF k] show ?thesis
  proof
    assume "tasks c ! k = Pending"
    with pos k have "can_move c k" by simp
    with stuck show ?thesis by blast
  qed
qed


lemma run_is_exec:
  "\<exists>more. run_until_complete E delay urls sched c = exec E delay urls (sched @ more) c"
proof -
  let ?c' = "exec E delay urls sched c"
  from drain_exec [of E delay urls "work ?c'" ?c'] obtain more where
    "drain E delay urls (work ?c') ?c' = exec E delay urls more ?c'" by blast
  then have "run_until_complete E delay urls sched c = exec E delay urls (sched @ more) c"
    by (simp add: run_until_complete_def exec_def)
  then show ?thesis by blast
qed

lemma run_stuck: "\<not> can_move (run_until_complete E delay urls sched c) i"
  unfolding run_until_complete_def Let_def by (rule drain_stuck) simp

lemma length_unit_results [simp]: "length (unit_results E urls) = length urls"
  by (simp add: unit_results_def)

lemma finished_settled:
  assumes "tasks (exec E delay urls sched (init_config sem urls)) ! k = Finished x"
    and "k < length urls"
  shows "x = unit_results E urls ! k"
proof -
  let ?c = "exec E delay urls sched (init_config sem urls)"
  have "k < length (tasks ?c)" using assms(2) by (simp add: init_config_def)
  with settled_exec [OF settled_init]
  have "settled E urls k (tasks ?c ! k)" by blast
  with assms show ?thesis by (simp add: unit_results_def)
qed

lemma run_tasks:
  assumes "1 \<le> sem"
  shows "tasks (run_until_complete E delay urls sched (init_config sem urls))
           = map Finished (unit_results E urls)"
proof -
  let ?c = "run_until_complete E delay urls sched (init_config sem urls)"
  obtain more where ex: "?c = exec E delay urls (sched @ more) (init_config sem urls)"
    using run_is_exec by blast
  have len: "length (tasks ?c) = length urls"
    unfolding ex by (simp add: init_config_def)
  have permits: "sem_value ?c + int (in_flight ?c) = sem"
    unfolding ex using permits_exec [of E delay urls "sched @ more" "init_config sem urls"]
    by simp
  have stuck: "\<forall>i. \<not> can_move ?c i" using run_stuck by blast
  show ?thesis
  proof (rule nth_equalityI)
    show "length (tasks ?c) = length (map Finished (unit_results E urls))"
      using len by simp
  next
    fix k assume "k < length (tasks ?c)"
    then have k: "k < length urls" "k < length (tasks ?c)" using len by simp_all
    from stuck_all_finished [OF permits assms stuck k(2)]
    obtain x where x: "tasks ?c ! k = Finished x" by blast
    then have "tasks (exec E delay urls (sched @ more) (init_config sem urls)) ! k = Finished x"
      using ex by simp
    from finished_settled [OF this k(1)] x k(1)
    show "tasks ?c ! k = map Finished (unit_results E urls) ! k" by simp
  qed
qed

lemma run_noted: "noted (run_until_complete E delay urls sched (init_config sem urls))"
proof -
  obtain more where
    "run_until_complete E delay urls sched (init_config sem urls)
       = exec E delay urls (sched @ more) (init_config sem urls)"
    using run_is_exec by blast
  then show ?thesis using noted_exec [OF noted_init] by simp
qed

text \<open>When gather returns, it returns the results of the units in the order of the URLs.\<close>

lemma gather_returned:
  assumes "gather (run_until_complete E delay urls sched (init_config sem urls)) = Returned rs"
  shows "map Inr rs = unit_results E urls"
proof -
  let ?c = "run_until_complete E delay urls sched (init_config sem urls)"
  obtain more where ex: "?c = exec E delay urls (sched @ more) (init_config sem urls)"
    using run_is_exec by blast
  have len: "length (tasks ?c) = length urls"
    unfolding ex by (simp add: init_config_def)
  from assms have fin: "list_all (\<lambda>p. finished_value p \<noteq> None) (tasks ?c)"
    and rs: "rs = map (\<lambda>p. the (finished_value p)) (tasks ?c)"
    by (auto simp: gather_def split: option.splits if_splits)
  show ?thesis
  proof (rule nth_equalityI)
    show "length (map Inr rs) = length (unit_results E urls)" using rs len by simp
  next
    fix k assume "k < length (map Inr rs)"
    then have k: "k < length urls" "k < length (tasks ?c)" using rs len by simp_all
    from fin k(2) have "finished_value (tasks ?c ! k) \<noteq> None"
      by (simp add: list_all_length)
    then obtain y where y: "tasks ?c ! k = Finished (Inr y)"
      by (cases "tasks ?c ! k" rule: finished_value.cases) simp_all
    then have "tasks (exec E delay urls (sched @ more) (init_config sem urls)) ! k
                 = Finished (Inr y)" using ex by simp
    from finished_settled [OF this k(1)] have "unit_results E urls ! k = Inr y" by simp
    with y rs k show "map Inr rs ! k = unit_results E urls ! k" by simp
  qed
qed

text \<open>With at least one permit the run ends: gather returns or raises.\<close>

lemma gather_run:
  assumes "1 \<le> sem"
  shows "gather (run_until_complete E delay urls sched (init_config sem urls)) =
           (if \<exists>e. Inl e \<in> set (unit_results E urls)
            then Raised (the (gather_exn (run_until_complete E delay urls sched (init_config sem urls))))
            else Returned (map projr (unit_results E urls)))"
    and "(\<exists>e. Inl e \<in> set (unit_results E urls)) \<Longrightarrow>
         Inl (the (gather_exn (run_until_complete E delay urls sched (init_config sem urls))))
           \<in> set (unit_results E urls)"
proof -
  let ?c = "run_until_complete E delay urls sched (init_config sem urls)"
  let ?us = "unit_results E urls"
  have tasks: "tasks ?c = map Finished ?us" using assms by (rule run_tasks)
  have noted: "noted ?c" by (rule run_noted)
  have raised: "gather_exn ?c \<noteq> None" if "Inl e \<in> set ?us" for e
  proof
    assume none: "gather_exn ?c = None"
    from that obtain k where k: "k < length ?us" "?us ! k = Inl e"
      by (auto simp: in_set_conv_nth)
    with tasks have "k < length (tasks ?c)" "tasks ?c ! k = Finished (Inl e)" by simp_all
    with noted none show False by (auto simp: noted_def)
  qed
  have from_unit: "Inl e \<in> set ?us" if "gather_exn ?c = Some e" for e
  proof -
    from noted that obtain k where "k < length (tasks ?c)" "tasks ?c ! k = Finished (Inl e)"
      by (auto simp: noted_def)
    with tasks have "k < length ?us" "?us ! k = Inl e" by simp_all
    then show ?thesis by (auto simp: in_set_conv_nth)
  qed
  show "gather ?c =
           (if \<exists>e. Inl e \<in> set ?us then Raised (the (gather_exn ?c))
            else Returned (map projr ?us))"
  proof (cases "gather_exn ?c")
    case (Some e)
    from from_unit [OF Some] have "\<exists>e. Inl e \<in> set ?us" by blast
    with Some show ?thesis by (simp add: gather_def)
  next
    case None
    with raised have no: "\<not> (\<exists>e. Inl e \<in> set ?us)" by blast
    then have all_r: "\<forall>x \<in> set ?us. \<exists>y. x = Inr y"
      by (metis sum.exhaust)
    have fin: "list_all (\<lambda>p. finished_value p \<noteq> None) (tasks ?c)"
      unfolding tasks list_all_iff using all_r by auto
    have "map (\<lambda>p. the (finished_value p)) (tasks ?c) = map projr ?us"
      unfolding tasks using all_r by auto
    with None no fin show ?thesis by (simp add: gather_def)
  qed
  show "Inl (the (gather_exn ?c)) \<in> set ?us" if "\<exists>e. Inl e \<in> set ?us"
  proof -
    from that raised obtain e where "gather_exn ?c = Some e" by blast
    with from_unit [of e] show ?thesis by simp
  qed
qed

section \<open>Fatal failures\<close>


lemma scrape_data_failure:
  assumes "net E i u = Refuses e \<or> net E i u = Responds (Fails e)" and "e \<noteq> TimeoutError"
  shows "scrape_data E i u = Inl e"
  using assms by (auto simp: scrape_data_def handler_def)

lemma scrape_data_not_timeout:
  assumes "scrape_data E i u = Inl e"
  shows "e \<noteq> TimeoutError"
proof (cases "net E i u")
  case (Refuses e')
  with assms show ?thesis
    by (auto simp: scrape_data_def handler_def split: if_splits)
next
  case (Responds r)
  with assms show ?thesis
    by (cases r) (auto simp: scrape_data_def handler_def split: if_splits option.splits)
qed

lemma nth_unit_results [simp]:
  "i < length urls \<Longrightarrow> unit_results E urls ! i = scrape_data E i (urls ! i)"
  by (simp add: unit_results_def)

lemma in_unit_results:
  "x \<in> set (unit_results E urls) \<longleftrightarrow> (\<exists>i < length urls. x = scrape_data E i (urls ! i))"
  by (auto simp: unit_results_def)

lemma outputs_main_not_completed:
  assumes "fst (main E file_path delay max_requests output_file sched w) \<noteq> Completed"
  shows "outputs (snd (main E file_path delay max_requests output_file sched w)) = outputs w"
  using assms
  by (auto simp: main_def Let_def split: sum.splits prod.splits if_splits)

text \<open>
  C9. When the input file has no column named \<^verbatim>\<open>url\<close>, the run fails while loading:
  \<^verbatim>\<open>main\<close> raises and leaves the world as it was, so nothing was requested from the
  network and nothing was written.
\<close>

theorem missing_url_column_is_fatal_before_network:
  assumes "inputs w file_path = Some csv" and "map_of csv ''url'' = None"
  shows "main E file_path delay max_requests output_file sched w =
           (Failed (if max_requests < 0
                    then ValueError ''Semaphore initial value must be >= 0''
                    else KeyError ''url''), w)"
  using assms by (simp add: main_def Semaphore_def load_data_def)

theorem missing_url_column_is_fatal_before_network_witness:
  "inputs disk ''links.csv'' = Some [(''link'', [''https://a''])] \<and>
   map_of [(''link'', [''https://a''])] ''url'' = None \<and>
   main web ''links.csv'' 1 5 ''out.csv'' [0, 0] disk = (Failed (KeyError ''url''), disk)"
  using missing_url_column_is_fatal_before_network
          [of disk "''links.csv''" "[(''link'', [''https://a''])]" web 1 5 "''out.csv''" "[0, 0]"]
  by (simp add: disk_def)

text \<open>
  C7. When some fetch of the batch raises an exception other than a timeout, the
  exception is not caught: whatever the schedule, \<^verbatim>\<open>gather\<close> raises, \<^verbatim>\<open>main\<close> ends by an
  exception that is not a timeout, the results of the other units are dropped, and no
  output file is written.
\<close>

theorem transport_failure_aborts_batch:
  assumes "1 \<le> max_requests"
    and "load_data w file_path = Inr urls"
    and "i < length urls"
    and "net E i (urls ! i) = Refuses e \<or> net E i (urls ! i) = Responds (Fails e)"
    and "e \<noteq> TimeoutError"
  shows "\<exists>e'. fst (main E file_path delay max_requests output_file sched w) = Failed e' \<and>
              e' \<noteq> TimeoutError \<and>
              outputs (snd (main E file_path delay max_requests output_file sched w))
                = outputs w"
proof -
  let ?c = "run_until_complete E delay urls sched (init_config max_requests urls)"
  let ?e = "the (gather_exn ?c)"
  have sem: "Semaphore max_requests = Inr max_requests"
    using assms(1) by (simp add: Semaphore_def)
  have "scrape_data E i (urls ! i) = Inl e"
    using assms(4,5) by (rule scrape_data_failure)
  then have "Inl e \<in> set (unit_results E urls)"
    using assms(3) by (auto simp: in_unit_results)
  then have ex: "\<exists>e. Inl e \<in> set (unit_results E urls)" by blast
  from gather_run(1) [OF assms(1), of E delay urls sched] ex
  have g: "gather ?c = Raised ?e" by simp
  from gather_run(2) [OF assms(1) ex, of delay sched]
  have "Inl ?e \<in> set (unit_results E urls)" .
  then obtain k where "scrape_data E k (urls ! k) = Inl ?e"
    by (auto simp: in_unit_results)
  then have nt: "?e \<noteq> TimeoutError" by (rule scrape_data_not_timeout)
  have st: "fst (main E file_path delay max_requests output_file sched w) = Failed ?e"
    using sem assms(2) g by (simp add: main_def scrape_all_def Let_def)
  then have "fst (main E file_path delay max_requests output_file sched w) \<noteq> Completed"
    by simp
  from outputs_main_not_completed [OF this] st nt show ?thesis by blast
qed

theorem transport_failure_aborts_batch_witness:
  "(1::int) \<le> 5 \<and> load_data disk ''ac.csv'' = Inr [''https://a'', ''https://c''] \<and>
   (1::nat) < length [''https://a'', ''https://c''] \<and>
   net web 1 ([''https://a'', ''https://c''] ! 1) = Refuses (ClientError ''connection reset'') \<and>
   ClientError ''connection reset'' \<noteq> TimeoutError \<and>
   (\<exists>e'. fst (main web ''ac.csv'' 1 5 ''out.csv'' [1, 0, 1] disk) = Failed e' \<and>
         outputs (snd (main web ''ac.csv'' 1 5 ''out.csv'' [1, 0, 1] disk)) = Map.empty)"
proof -
  have l: "load_data disk ''ac.csv'' = Inr [''https://a'', ''https://c'']"
    by (simp add: load_data_def disk_def)
  have n: "net web 1 ([''https://a'', ''https://c''] ! 1) = Refuses (ClientError ''connection reset'')"
    by (simp add: web_def)
  have o: "outputs disk = Map.empty" by (simp add: disk_def)
  from transport_failure_aborts_batch
         [of 5 disk "''ac.csv''" "[''https://a'', ''https://c'']" 1 web
             "ClientError ''connection reset''" 1 "''out.csv''" "[1, 0, 1]"] l n o
  show ?thesis by auto
qed

section \<open>Assembling the table\<close>


lemma unique_fold_known:
  "set ks \<subseteq> set seen \<Longrightarrow>
   fold (\<lambda>k seen. if k \<in> set seen then seen else seen @ [k]) ks seen = seen"
  by (induction ks) simp_all

lemma unique_fold_fresh:
  "distinct (seen @ ks) \<Longrightarrow>
   fold (\<lambda>k seen. if k \<in> set seen then seen else seen @ [k]) ks seen = seen @ ks"
proof (induction ks arbitrary: seen)
  case Nil
  then show ?case by simp
next
  case (Cons k ks)
  from Cons.prems have "k \<notin> set seen" and "distinct ((seen @ [k]) @ ks)" by auto
  with Cons.IH [of "seen @ [k]"] show ?case by simp
qed

lemma unique_keys_repeated:
  assumes "distinct ks" and "set again \<subseteq> set ks"
  shows "unique_keys (ks @ again) = ks"
  unfolding unique_keys_def
  using unique_fold_fresh [of "[]" ks] unique_fold_known [of again ks] assms by simp

lemma distinct_field_names: "distinct field_names"
  using distinct_element_keys element_keys by simp

lemma extract_texts_keys [simp]: "map fst (extract_texts sp) = field_names"
  unfolding extract_texts_map using element_keys by (simp add: case_prod_unfold comp_def)

lemma scrape_data_keys:
  assumes "scrape_data E i u = Inr (Some t)"
  shows "map fst t = field_names"
proof (cases "snd (get_html_content (net E i u) u)")
  case (Inl e)
  with assms show ?thesis by (simp add: scrape_data_def)
next
  case (Inr h)
  with assms show ?thesis
    by (cases h) (auto simp: scrape_data_def split: option.splits)
qed

text \<open>The frame made of dictionaries that all have the twelve keys.\<close>

lemma DataFrame_dicts:
  assumes "rs = Some d # rest" and "DataFrame rs = Inr sdf"
    and keys: "\<forall>t. Some t \<in> set rs \<longrightarrow> map fst t = field_names"
  shows "nrows sdf = length rs \<and> map fst (columns sdf) = map Name field_names \<and>
         (\<forall>col \<in> set (columns sdf). length (snd col) = length rs)"
proof -
  from assms(1,2) have all: "list_all (\<lambda>r. r \<noteq> None) rest"
    by (auto split: if_splits)
  let ?ds = "d # map the rest"
  have each: "map fst t = field_names" if "t \<in> set ?ds" for t
  proof -
    from that all have "Some t \<in> set (Some d # rest)"
      by (auto simp: list_all_iff)
    with keys assms(1) show ?thesis by blast
  qed
  have "concat (map (map fst) ?ds) = field_names @ concat (map (map fst) (map the rest))"
    using each [of d] by simp
  moreover have "set (concat (map (map fst) (map the rest))) \<subseteq> set field_names"
  proof
    fix k assume "k \<in> set (concat (map (map fst) (map the rest)))"
    then obtain t where t: "t \<in> set (map the rest)" "k \<in> set (map fst t)" by auto
    then have "t \<in> set ?ds" by simp
    from each [OF this] t(2) show "k \<in> set field_names" by simp
  qed
  ultimately have uk: "unique_keys (concat (map (map fst) ?ds)) = field_names"
    using unique_keys_repeated [OF distinct_field_names] by simp
  from assms(1,2) all
  have sdf: "sdf = \<lparr>nrows = length ?ds,
                     columns = map (\<lambda>k. (Name k, map (dict_cell k) ?ds))
                                   (unique_keys (concat (map (map fst) ?ds)))\<rparr>"
    by (simp add: Let_def)
  show ?thesis unfolding sdf uk using assms(1) by (simp add: comp_def)
qed

lemma DataFrame_somes:
  assumes "list_all (\<lambda>r. r \<noteq> None) rs"
  shows "\<exists>sdf. DataFrame rs = Inr sdf \<and> nrows sdf = length rs \<and>
               (\<forall>col \<in> set (columns sdf). length (snd col) = length rs)"
proof (cases rs)
  case Nil
  then show ?thesis by simp
next
  case (Cons r rest)
  with assms obtain d where "r = Some d" by auto
  with Cons assms show ?thesis by (simp add: Let_def)
qed

lemma DataFrame_nones:
  "DataFrame (replicate (Suc n) None) =
     Inr \<lparr>nrows = Suc n, columns = [(Pos 0, replicate (Suc n) PyNone)]\<rparr>"
  by simp

text \<open>Putting the frame of results beside the URLs.\<close>

lemma concat_url_frame:
  assumes "nrows sdf = length urls"
    and "\<forall>col \<in> set (columns sdf). length (snd col) = length urls"
  shows "concat_axis1 (url_frame urls) sdf =
           \<lparr>nrows = length urls,
            columns = (Name ''url'', map (\<lambda>u. Val (Str u)) urls) # columns sdf\<rparr>"
proof -
  have "map (pad (length urls)) (columns sdf) = columns sdf"
    using assms(2) by (intro map_idI) (simp add: pad_def)
  then show ?thesis using assms(1)
    by (simp add: concat_axis1_def url_frame_def pad_def)
qed


lemma scrape_data_body:
  "net E i u = Responds (Body b) \<Longrightarrow> BeautifulSoup E b = Some sp \<Longrightarrow>
   scrape_data E i u = Inr (Some (extract_texts sp))"
  by (simp add: scrape_data_def)

lemma scrape_data_body_returned:
  "net E i u = Responds (Body b) \<Longrightarrow> scrape_data E i u = Inr r \<Longrightarrow>
   \<exists>sp. BeautifulSoup E b = Some sp \<and> r = Some (extract_texts sp)"
  by (auto simp: scrape_data_def split: option.splits)

lemma scrape_data_timed_out:
  "timed_out (net E i u) \<Longrightarrow> scrape_data E i u = Inr None"
  by (cases "net E i u" rule: timed_out.cases) (simp_all add: scrape_data_def handler_def)

lemma timeout_returns_marker_and_prints:
  "timed_out out \<Longrightarrow>
   get_html_content out url = ([''TimeoutError occurred while fetching '' @ url], Inr None)"
  by (cases out rule: timed_out.cases) (simp_all add: handler_def)

lemma scrape_all_returned:
  assumes "1 \<le> sem" and "\<forall>x \<in> set (unit_results E urls). \<exists>y. x = Inr y"
  shows "scrape_all E delay sem urls sched =
           ((case assemble urls (map projr (unit_results E urls)) of
               Inl e \<Rightarrow> (Failed e, url_frame urls)
             | Inr df \<Rightarrow> (Completed, df)),
            run_until_complete E delay urls sched (init_config sem urls))"
proof -
  from assms(2) have "\<not> (\<exists>e. Inl e \<in> set (unit_results E urls))" by auto
  with gather_run(1) [OF assms(1), of E delay urls sched]
  have "gather (run_until_complete E delay urls sched (init_config sem urls))
          = Returned (map projr (unit_results E urls))" by simp
  then show ?thesis by (simp add: scrape_all_def Let_def)
qed



lemma dict_cells_own_keys:
  assumes "distinct (map fst t)"
  shows "map (\<lambda>k. dict_cell k t) (map fst t) = map (\<lambda>(k, v). Val v) t"
proof -
  have "dict_cell (fst p) t = Val (snd p)" if "p \<in> set t" for p
  proof -
    from that have "(fst p, snd p) \<in> set t" by simp
    from map_of_is_SomeI [OF assms this] show ?thesis by (simp add: dict_cell_def)
  qed
  then show ?thesis by (auto simp: case_prod_unfold)
qed

lemma DataFrame_columns:
  assumes "rs \<noteq> []" and "list_all (\<lambda>r. r \<noteq> None) rs"
    and keys: "\<forall>t. Some t \<in> set rs \<longrightarrow> map fst t = field_names"
  shows "DataFrame rs =
           Inr \<lparr>nrows = length rs,
                columns = map (\<lambda>k. (Name k, map (\<lambda>r. dict_cell k (the r)) rs)) field_names\<rparr>"
proof -
  from assms(1,2) obtain d rest where rs: "rs = Some d # rest"
    and all: "list_all (\<lambda>r. r \<noteq> None) rest"
    by (cases rs) auto
  let ?ds = "d # map the rest"
  have each: "map fst t = field_names" if "t \<in> set ?ds" for t
  proof -
    from that all have "Some t \<in> set (Some d # rest)"
      by (auto simp: list_all_iff)
    with keys rs show ?thesis by blast
  qed
  have "concat (map (map fst) ?ds) = field_names @ concat (map (map fst) (map the rest))"
    using each [of d] by simp
  moreover have "set (concat (map (map fst) (map the rest))) \<subseteq> set field_names"
  proof
    fix k assume "k \<in> set (concat (map (map fst) (map the rest)))"
    then obtain t where t: "t \<in> set (map the rest)" "k \<in> set (map fst t)" by auto
    then have "t \<in> set ?ds" by simp
    from each [OF this] t(2) show "k \<in> set field_names" by simp
  qed
  ultimately have uk: "unique_keys (concat (map (map fst) ?ds)) = field_names"
    using unique_keys_repeated [OF distinct_field_names] by simp
  have "DataFrame rs =
      Inr \<lparr>nrows = length ?ds,
           columns = map (\<lambda>k. (Name k, map (dict_cell k) ?ds))
                         (unique_keys (concat (map (map fst) ?ds)))\<rparr>"
    unfolding rs using all by (simp add: Let_def)
  then show ?thesis unfolding uk rs by (simp add: comp_def)
qed

lemma scrape_all_documents:
  assumes "1 \<le> sem"
    and "\<forall>i < length urls. \<exists>b sp. net E i (urls ! i) = Responds (Body b) \<and>
                                      BeautifulSoup E b = Some sp"
  shows "\<exists>df c. scrape_all E delay sem urls sched = ((Completed, df), c) \<and>
               nrows df = length urls \<and>
               fst (hd (columns df)) = Name ''url'' \<and>
               (\<forall>i < length urls. hd (row_of df i) = Val (Str (urls ! i))) \<and>
               (\<forall>i < length urls. \<exists>b sp.
                   net E i (urls ! i) = Responds (Body b) \<and> BeautifulSoup E b = Some sp \<and>
                   row_of df i =
                     Val (Str (urls ! i)) # map (\<lambda>(k, v). Val v) (extract_texts sp))"
proof -
  let ?rs = "map projr (unit_results E urls)"
  have unit: "\<exists>b sp. net E i (urls ! i) = Responds (Body b) \<and> BeautifulSoup E b = Some sp \<and>
                     unit_results E urls ! i = Inr (Some (extract_texts sp))"
    if "i < length urls" for i
  proof -
    from assms(2) that obtain b sp where
      "net E i (urls ! i) = Responds (Body b)" "BeautifulSoup E b = Some sp" by blast
    with scrape_data_body [OF this] that show ?thesis by auto
  qed
  have each: "\<exists>t. x = Inr (Some t) \<and> map fst t = field_names"
    if "x \<in> set (unit_results E urls)" for x
  proof -
    from that obtain i where i: "i < length urls" "x = unit_results E urls ! i"
      by (auto simp: in_set_conv_nth)
    from unit [OF i(1)] i(2) show ?thesis by auto
  qed
  then have inr: "\<forall>x \<in> set (unit_results E urls). \<exists>y. x = Inr y" by blast
  have somes: "list_all (\<lambda>r. r \<noteq> None) ?rs"
    unfolding list_all_iff using each by fastforce
  have keys: "\<forall>t. Some t \<in> set ?rs \<longrightarrow> map fst t = field_names"
    using each by fastforce
  from DataFrame_somes [OF somes] obtain sdf where
    sdf: "DataFrame ?rs = Inr sdf" "nrows sdf = length urls"
      "\<forall>col \<in> set (columns sdf). length (snd col) = length urls" by auto
  let ?df = "\<lparr>nrows = length urls,
              columns = (Name ''url'', map (\<lambda>u. Val (Str u)) urls) # columns sdf\<rparr>"
  have "assemble urls ?rs = Inr ?df"
    using sdf concat_url_frame [OF sdf(2,3)] by (simp add: assemble_def)
  with scrape_all_returned [OF assms(1) inr, of delay sched]
  have run: "scrape_all E delay sem urls sched =
          ((Completed, ?df), run_until_complete E delay urls sched (init_config sem urls))"
    by simp
  have first: "\<forall>i < length urls. hd (row_of ?df i) = Val (Str (urls ! i))"
    by (simp add: row_of_def)
  have own: "\<exists>b sp. net E i (urls ! i) = Responds (Body b) \<and> BeautifulSoup E b = Some sp \<and>
                    row_of ?df i = Val (Str (urls ! i)) # map (\<lambda>(k, v). Val v) (extract_texts sp)"
    if i: "i < length urls" for i
  proof -
    from unit [OF i] obtain b sp where
      b: "net E i (urls ! i) = Responds (Body b)" "BeautifulSoup E b = Some sp"
      and u: "unit_results E urls ! i = Inr (Some (extract_texts sp))" by blast
    have "length ?rs = length urls" by simp
    with i have ne: "?rs \<noteq> []" by (metis list.size(3) not_less_zero)
    from DataFrame_columns [OF ne somes keys] sdf(1)
    have cols: "columns sdf =
        map (\<lambda>k. (Name k, map (\<lambda>r. dict_cell k (the r)) ?rs)) field_names" by simp
    have "row_of ?df i =
        Val (Str (urls ! i)) # map (\<lambda>k. dict_cell k (extract_texts sp)) field_names"
      unfolding cols using i u by (simp add: row_of_def comp_def)
    also have "map (\<lambda>k. dict_cell k (extract_texts sp)) field_names =
        map (\<lambda>(k, v). Val v) (extract_texts sp)"
      using dict_cells_own_keys [of "extract_texts sp"] distinct_field_names by simp
    finally show ?thesis using b by blast
  qed
  from run first own show ?thesis by fastforce
qed

text \<open>
  C1, as amended. When every fetch returns a document that the parser accepts and the
  semaphore has at least one permit, the run completes under every order of completion
  of the fetches; its table has as many rows as there are URLs, its first column is
  \<^verbatim>\<open>url\<close>, and row \<open>i\<close> carries the URL at index \<open>i\<close> of the input followed by the
  twelve values extracted from the document that the request for that URL returned.
\<close>

theorem rows_follow_input_order:
  assumes "1 \<le> sem"
    and "\<forall>i < length urls. \<exists>b sp. net E i (urls ! i) = Responds (Body b) \<and>
                                      BeautifulSoup E b = Some sp"
  shows "\<exists>df c. scrape_all E delay sem urls sched = ((Completed, df), c) \<and>
               nrows df = length urls \<and>
               fst (hd (columns df)) = Name ''url'' \<and>
               (\<forall>i < length urls. hd (row_of df i) = Val (Str (urls ! i))) \<and>
               (\<forall>i < length urls. \<exists>b sp.
                   net E i (urls ! i) = Responds (Body b) \<and> BeautifulSoup E b = Some sp \<and>
                   row_of df i =
                     Val (Str (urls ! i)) # map (\<lambda>(k, v). Val v) (extract_texts sp))"
  using assms by (rule scrape_all_documents)

theorem rows_follow_input_order_witness:
  "(1::int) \<le> 1 \<and>
   list_all (\<lambda>i. net pages i ([''https://a'', ''https://d''] ! i)
                    = Responds (Body (''page of '' @ [''https://a'', ''https://d''] ! i)) \<and>
                  BeautifulSoup pages (''page of '' @ [''https://a'', ''https://d''] ! i) \<noteq> None)
     [0, 1] \<and>
   (\<exists>df c. scrape_all pages 1 1 [''https://a'', ''https://d''] [1, 0, 1] = ((Completed, df), c) \<and>
          nrows df = 2 \<and>
          row_of df 0 =
            [Val (Str ''https://a''), Val (Str ''page of https://a''), Val NA, Val NA, Val NA,
             Val NA, Val NA, Val NA, Val NA, Val NA, Val NA, Val NA, Val NA] \<and>
          row_of df 1 =
            [Val (Str ''https://d''), Val (Str ''page of https://d''), Val NA, Val NA, Val NA,
             Val NA, Val NA, Val NA, Val NA, Val NA, Val NA, Val NA, Val NA])"
proof -
  let ?urls = "[''https://a'', ''https://d'']"
  have hyp: "\<forall>i < length ?urls. \<exists>b sp. net pages i (?urls ! i) = Responds (Body b) \<and>
                                       BeautifulSoup pages b = Some sp"
    by (simp add: pages_def)
  have l: "list_all (\<lambda>i. net pages i (?urls ! i) = Responds (Body (''page of '' @ ?urls ! i)) \<and>
                         BeautifulSoup pages (''page of '' @ ?urls ! i) \<noteq> None) [0, 1]"
    by (simp add: pages_def)
  from rows_follow_input_order [of 1 ?urls pages 1 "[1, 0, 1]"] hyp
  obtain df c where
    run: "scrape_all pages 1 1 ?urls [1, 0, 1] = ((Completed, df), c)"
    and n: "nrows df = length ?urls"
    and own: "\<forall>i < length ?urls. \<exists>b sp.
        net pages i (?urls ! i) = Responds (Body b) \<and> BeautifulSoup pages b = Some sp \<and>
        row_of df i = Val (Str (?urls ! i)) # map (\<lambda>(k, v). Val v) (extract_texts sp)"
    by auto
  from own [rule_format, of 0]
  have "\<exists>b sp. net pages 0 (?urls ! 0) = Responds (Body b) \<and>
        BeautifulSoup pages b = Some sp \<and>
        row_of df 0 = Val (Str (?urls ! 0)) # map (\<lambda>(k, v). Val v) (extract_texts sp)"
    by simp
  then have r0: "row_of df 0 =
            [Val (Str ''https://a''), Val (Str ''page of https://a''), Val NA, Val NA, Val NA,
             Val NA, Val NA, Val NA, Val NA, Val NA, Val NA, Val NA, Val NA]"
    by (auto simp: pages_def extract_texts_map elements_def field_text_def strip_def
          isspace_def)
  from own [rule_format, of 1]
  have "\<exists>b sp. net pages 1 (?urls ! 1) = Responds (Body b) \<and>
        BeautifulSoup pages b = Some sp \<and>
        row_of df 1 = Val (Str (?urls ! 1)) # map (\<lambda>(k, v). Val v) (extract_texts sp)"
    by simp
  then have r1: "row_of df 1 =
            [Val (Str ''https://d''), Val (Str ''page of https://d''), Val NA, Val NA, Val NA,
             Val NA, Val NA, Val NA, Val NA, Val NA, Val NA, Val NA, Val NA]"
    by (auto simp: pages_def extract_texts_map elements_def field_text_def strip_def
          isspace_def)
  from run n r0 r1 have "scrape_all pages 1 1 ?urls [1, 0, 1] = ((Completed, df), c) \<and>
          nrows df = 2 \<and>
          row_of df 0 =
            [Val (Str ''https://a''), Val (Str ''page of https://a''), Val NA, Val NA, Val NA,
             Val NA, Val NA, Val NA, Val NA, Val NA, Val NA, Val NA, Val NA] \<and>
          row_of df 1 =
            [Val (Str ''https://d''), Val (Str ''page of https://d''), Val NA, Val NA, Val NA,
             Val NA, Val NA, Val NA, Val NA, Val NA, Val NA, Val NA, Val NA]"
    by simp
  with l show ?thesis by blast
qed

text \<open>
  The claim C1 as it stands is false: a batch in which one fetch meets a reset connection
  produces no row at all, because \<^verbatim>\<open>scrape_all\<close> ends by the exception.
\<close>

theorem rows_lost_on_transport_failure:
  "fst (fst (scrape_all web 1 5 [''https://a'', ''https://c''] [1, 0, 1]))
     = Failed (ClientError ''connection reset'')"
proof -
  let ?urls = "[''https://a'', ''https://c'']"
  let ?c = "run_until_complete web 1 ?urls [1, 0, 1] (init_config 5 ?urls)"
  have us: "unit_results web ?urls =
      [scrape_data web 0 ''https://a'', Inl (ClientError ''connection reset'')]"
    by (simp add: unit_results_def scrape_data_def web_def handler_def)
  have a: "\<exists>t. scrape_data web 0 ''https://a'' = Inr (Some t)"
    by (simp add: scrape_data_def web_def)
  have ex: "\<exists>e. Inl e \<in> set (unit_results web ?urls)" unfolding us by auto
  from gather_run(2) [of 5, OF _ ex, of 1 "[1, 0, 1]"]
  have "Inl (the (gather_exn ?c)) \<in> set (unit_results web ?urls)" by simp
  then have e: "the (gather_exn ?c) = ClientError ''connection reset''"
    unfolding us using a by auto
  from gather_run(1) [of 5 web 1 ?urls "[1, 0, 1]"] ex e
  have "gather ?c = Raised (ClientError ''connection reset'')" by simp
  then show ?thesis by (simp add: scrape_all_def Let_def)
qed


lemma exec_no_tasks: "tasks c = [] \<Longrightarrow> exec E delay urls sched c = c"
  unfolding exec_def by (induction sched) (simp_all add: step_def)

lemma run_no_tasks:
  "run_until_complete E delay [] sched (init_config sem []) = init_config sem []"
proof -
  have t: "tasks (init_config sem []) = []" by (simp add: init_config_def)
  have "work (init_config sem []) = 0" by (simp add: work_def init_config_def)
  then show ?thesis
    by (simp add: run_until_complete_def exec_no_tasks [OF t])
qed

lemma scrape_all_empty:
  "scrape_all E delay sem [] sched =
     ((Completed, \<lparr>nrows = 0, columns = [(Name ''url'', [])]\<rparr>), init_config sem [])"
proof -
  have "gather (init_config sem []) = Returned []"
    by (simp add: gather_def init_config_def)
  moreover have "assemble [] [] = Inr \<lparr>nrows = 0, columns = [(Name ''url'', [])]\<rparr>"
    by (simp add: assemble_def concat_axis1_def url_frame_def pad_def)
  ultimately show ?thesis
    unfolding scrape_all_def run_no_tasks by simp
qed

lemma scrape_all_timeouts:
  assumes "1 \<le> sem" and "urls \<noteq> []"
    and "\<forall>i < length urls. timed_out (net E i (urls ! i))"
  shows "fst (scrape_all E delay sem urls sched) =
           (Completed, \<lparr>nrows = length urls,
                        columns = [(Name ''url'', map (\<lambda>u. Val (Str u)) urls),
                                   (Pos 0, replicate (length urls) PyNone)]\<rparr>)"
proof -
  have us: "unit_results E urls = replicate (length urls) (Inr None)"
  proof (rule nth_equalityI)
    show "length (unit_results E urls) = length (replicate (length urls) (Inr None))"
      by simp
  next
    fix i assume "i < length (unit_results E urls)"
    then have i: "i < length urls" by simp
    with assms(3) have "timed_out (net E i (urls ! i))" by blast
    from scrape_data_timed_out [OF this] i
    show "unit_results E urls ! i = replicate (length urls) (Inr None) ! i" by simp
  qed
  then have inr: "\<forall>x \<in> set (unit_results E urls). \<exists>y. x = Inr y" by simp
  obtain n where n: "length urls = Suc n" using assms(2) by (cases urls) simp_all
  have rs: "map projr (unit_results E urls) = replicate (Suc n) None"
    unfolding us n by simp
  let ?sdf = "\<lparr>nrows = Suc n, columns = [(Pos 0, replicate (Suc n) PyNone)]\<rparr>"
  have "concat_axis1 (url_frame urls) ?sdf =
      \<lparr>nrows = length urls,
       columns = (Name ''url'', map (\<lambda>u. Val (Str u)) urls) # columns ?sdf\<rparr>"
    by (rule concat_url_frame) (simp_all add: n)
  then have "assemble urls (map projr (unit_results E urls)) =
      Inr \<lparr>nrows = length urls,
           columns = [(Name ''url'', map (\<lambda>u. Val (Str u)) urls),
                      (Pos 0, replicate (length urls) PyNone)]\<rparr>"
    unfolding rs assemble_def DataFrame_nones by (simp add: n)
  with scrape_all_returned [OF assms(1) inr, of delay sched] show ?thesis by simp
qed

text \<open>
  C10, as amended. On an empty list of URLs the assembled table has the column \<^verbatim>\<open>url\<close>
  only. On a batch of one or more URLs whose fetches all time out it has the column
  \<^verbatim>\<open>url\<close> and one more column, labelled \<open>0\<close>, that holds \<^verbatim>\<open>None\<close> in every row. In both
  cases none of the twelve field columns exists.
\<close>

theorem field_columns_missing:
  "(urls = [] \<longrightarrow>
      map fst (columns (snd (fst (scrape_all E delay sem urls sched)))) = [Name ''url'']) \<and>
   (urls \<noteq> [] \<and> 1 \<le> sem \<and> (\<forall>i < length urls. timed_out (net E i (urls ! i))) \<longrightarrow>
      columns (snd (fst (scrape_all E delay sem urls sched))) =
        [(Name ''url'', map (\<lambda>u. Val (Str u)) urls),
         (Pos 0, replicate (length urls) PyNone)]) \<and>
   (urls = [] \<or> 1 \<le> sem \<and> (\<forall>i < length urls. timed_out (net E i (urls ! i))) \<longrightarrow>
      fst (fst (scrape_all E delay sem urls sched)) = Completed \<and>
      (\<forall>k \<in> set field_names.
         Name k \<notin> fst ` set (columns (snd (fst (scrape_all E delay sem urls sched))))))"
proof -
  have empty: "fst (scrape_all E delay sem [] sched) =
      (Completed, \<lparr>nrows = 0, columns = [(Name ''url'', [])]\<rparr>)"
    by (simp add: scrape_all_empty)
  have no_url: "''url'' \<notin> set field_names" by (simp add: field_names_def)
  show ?thesis
  proof (cases "urls = []")
    case True
    with empty no_url show ?thesis by auto
  next
    case False
    show ?thesis
    proof (cases "1 \<le> sem \<and> (\<forall>i < length urls. timed_out (net E i (urls ! i)))")
      case True
      then have "fst (scrape_all E delay sem urls sched) =
           (Completed, \<lparr>nrows = length urls,
                        columns = [(Name ''url'', map (\<lambda>u. Val (Str u)) urls),
                                   (Pos 0, replicate (length urls) PyNone)]\<rparr>)"
        using scrape_all_timeouts [OF _ False] by blast
      with False no_url show ?thesis by auto
    next
      case no: False
      with False show ?thesis by blast
    qed
  qed
qed

theorem field_columns_missing_witness:
  "[''https://b''] \<noteq> [] \<and> (1::int) \<le> 5 \<and> timed_out (net web 0 ''https://b'') \<and>
   columns (snd (fst (scrape_all web 1 5 [''https://b''] [0, 0]))) =
     [(Name ''url'', [Val (Str ''https://b'')]), (Pos 0, [PyNone])] \<and>
   map fst (columns (snd (fst (scrape_all web 1 5 [] [0, 0])))) = [Name ''url'']"
  using field_columns_missing [of "[''https://b'']" web 1 5 "[0, 0]"]
    field_columns_missing [of "[]" web 1 5 "[0, 0]"]
  by (simp add: web_def)

text \<open>
  The claim C10 as it stands is false for the batch of timeouts: the table does not
  contain the column \<^verbatim>\<open>url\<close> only.
\<close>

theorem timeouts_leave_a_second_column:
  "map fst (columns (snd (fst (scrape_all web 1 5 [''https://b''] [0, 0]))))
     = [Name ''url'', Pos 0] \<and>
   map fst (columns (snd (fst (scrape_all web 1 5 [''https://b''] [0, 0]))))
     \<noteq> [Name ''url'']"
proof -
  have "fst (scrape_all web 1 5 [''https://b''] [0, 0]) =
           (Completed, \<lparr>nrows = length [''https://b''],
                        columns = [(Name ''url'', map (\<lambda>u. Val (Str u)) [''https://b'']),
                                   (Pos 0, replicate (length [''https://b'']) PyNone)]\<rparr>)"
    by (rule scrape_all_timeouts) (simp_all add: web_def)
  then show ?thesis by simp
qed


lemma scrape_all_completed:
  assumes "scrape_all E delay sem urls sched = ((Completed, df), c)"
  shows "\<exists>rs. gather (run_until_complete E delay urls sched (init_config sem urls)) = Returned rs \<and>
              assemble urls rs = Inr df"
  using assms
  by (auto simp: scrape_all_def Let_def split: awaited.splits sum.splits)

lemma main_completed:
  assumes "main E file_path delay max_requests output_file sched w = (Completed, w')"
    and "load_data w file_path = Inr urls"
  shows "\<exists>df c. scrape_all E delay max_requests urls sched = ((Completed, df), c) \<and>
               outputs w' output_file = Some (to_csv df False)"
proof -
  from assms(1) obtain sem where sem: "Semaphore max_requests = Inr sem"
    by (cases "Semaphore max_requests") (simp_all add: main_def)
  then have s: "sem = max_requests" by (auto simp: Semaphore_def split: if_splits)
  obtain st df c where sc: "scrape_all E delay sem urls sched = ((st, df), c)"
    by (metis prod.exhaust)
  from assms sem sc have st: "st = Completed"
    by (auto simp: main_def Let_def split: if_splits)
  from assms sem sc st have "outputs w' output_file = Some (to_csv df False)"
    by (auto simp: main_def Let_def save_results_def print_results_def)
  with sc st s show ?thesis by auto
qed

text \<open>
  C8, as amended. For every completed run over one or more URLs in which the fetch of
  the first URL returned a document, the file written has exactly the columns \<^verbatim>\<open>url\<close>
  and the twelve fields, in this order, one line per input URL carrying that URL first,
  and thirteen cells in every line: there is no column for the row index.
\<close>

theorem output_columns_after_first_document:
  assumes "main E file_path delay max_requests output_file sched w = (Completed, w')"
    and "load_data w file_path = Inr urls"
    and "urls \<noteq> []"
    and "net E 0 (urls ! 0) = Responds (Body b)"
  shows "\<exists>sh. outputs w' output_file = Some sh \<and>
              header sh = Name ''url'' # map Name field_names \<and>
              length (records sh) = length urls \<and>
              (\<forall>i < length urls. length (records sh ! i) = 13 \<and>
                                  hd (records sh ! i) = Cell (Val (Str (urls ! i))))"
proof -
  from main_completed [OF assms(1,2)] obtain df c where
    sc: "scrape_all E delay max_requests urls sched = ((Completed, df), c)"
    and out: "outputs w' output_file = Some (to_csv df False)" by blast
  from scrape_all_completed [OF sc] obtain rs where
    g: "gather (run_until_complete E delay urls sched (init_config max_requests urls)) = Returned rs"
    and a: "assemble urls rs = Inr df" by blast
  from gather_returned [OF g] have rs: "map Inr rs = unit_results E urls" .
  then have len: "length rs = length urls"
    by (metis length_map length_unit_results)
  have nth: "Inr (rs ! i) = scrape_data E i (urls ! i)" if "i < length urls" for i
    using that rs len by (metis nth_map nth_unit_results)
  from assms(3) have pos: "0 < length urls" by simp
  from nth [OF pos] have "scrape_data E 0 (urls ! 0) = Inr (rs ! 0)" by simp
  from scrape_data_body_returned [OF assms(4) this]
  obtain sp where first: "rs ! 0 = Some (extract_texts sp)" by blast
  from pos len obtain r rest where cons: "rs = r # rest" by (cases rs) simp_all
  with first have shape: "rs = Some (extract_texts sp) # rest" by simp
  have keys: "\<forall>t. Some t \<in> set rs \<longrightarrow> map fst t = field_names"
  proof (intro allI impI)
    fix t assume "Some t \<in> set rs"
    then obtain i where i: "i < length rs" "rs ! i = Some t" by (auto simp: in_set_conv_nth)
    with nth [of i] len have "scrape_data E i (urls ! i) = Inr (Some t)" by simp
    then show "map fst t = field_names" by (rule scrape_data_keys)
  qed
  from a obtain sdf where sdf: "DataFrame rs = Inr sdf"
    and df: "df = concat_axis1 (url_frame urls) sdf"
    by (auto simp: assemble_def split: sum.splits)
  from DataFrame_dicts [OF shape sdf keys] len
  have n: "nrows sdf = length urls"
    and labels: "map fst (columns sdf) = map Name field_names"
    and cols: "\<forall>col \<in> set (columns sdf). length (snd col) = length urls" by simp_all
  have df': "df = \<lparr>nrows = length urls,
                   columns = (Name ''url'', map (\<lambda>u. Val (Str u)) urls) # columns sdf\<rparr>"
    unfolding df by (rule concat_url_frame [OF n cols])
  have twelve: "length (columns sdf) = 12"
    using arg_cong [OF labels, of length] by (simp add: field_names_def)
  let ?sh = "to_csv df False"
  have "header ?sh = Name ''url'' # map Name field_names"
    unfolding df' using labels by (simp add: to_csv_def)
  moreover have "length (records ?sh) = length urls"
    unfolding df' by (simp add: to_csv_def)
  moreover have "\<forall>i < length urls. length (records ?sh ! i) = 13 \<and>
                                  hd (records ?sh ! i) = Cell (Val (Str (urls ! i)))"
    unfolding df' using twelve by (simp add: to_csv_def row_of_def)
  ultimately show ?thesis using out by blast
qed


lemma main_documents_complete:
  assumes "1 \<le> max_requests" and "load_data w file_path = Inr urls"
    and "\<forall>i < length urls. \<exists>b sp. net E i (urls ! i) = Responds (Body b) \<and>
                                      BeautifulSoup E b = Some sp"
  shows "fst (main E file_path delay max_requests output_file sched w) = Completed"
proof -
  from scrape_all_documents [OF assms(1,3), of delay sched] obtain df c where
    "scrape_all E delay max_requests urls sched = ((Completed, df), c)" by blast
  moreover have "Semaphore max_requests = Inr max_requests"
    using assms(1) by (simp add: Semaphore_def)
  ultimately show ?thesis using assms(2) by (simp add: main_def Let_def)
qed

theorem output_columns_after_first_document_witness:
  "load_data disk ''a.csv'' = Inr [''https://a''] \<and> [''https://a''] \<noteq> [] \<and>
   net web 0 ([''https://a''] ! 0) = Responds (Body ''<html>'') \<and>
   fst (main web ''a.csv'' 1 5 ''out.csv'' [0] disk) = Completed \<and>
   map_option header (outputs (snd (main web ''a.csv'' 1 5 ''out.csv'' [0] disk)) ''out.csv'')
     = Some (Name ''url'' # map Name field_names)"
proof -
  have l: "load_data disk ''a.csv'' = Inr [''https://a'']"
    by (simp add: load_data_def disk_def)
  have n: "net web 0 ([''https://a''] ! 0) = Responds (Body ''<html>'')"
    by (simp add: web_def)
  have "\<forall>i < length [''https://a'']. \<exists>b sp.
          net web i ([''https://a''] ! i) = Responds (Body b) \<and> BeautifulSoup web b = Some sp"
    by (simp add: web_def)
  from main_documents_complete [OF _ l this, of 5 1 "''out.csv''" "[0]"]
  have c: "fst (main web ''a.csv'' 1 5 ''out.csv'' [0] disk) = Completed" by simp
  then have m: "main web ''a.csv'' 1 5 ''out.csv'' [0] disk
      = (Completed, snd (main web ''a.csv'' 1 5 ''out.csv'' [0] disk))"
    by (metis prod.collapse)
  from output_columns_after_first_document [OF m l _ n]
  have "map_option header (outputs (snd (main web ''a.csv'' 1 5 ''out.csv'' [0] disk)) ''out.csv'')
     = Some (Name ''url'' # map Name field_names)" by auto
  with l n c show ?thesis by simp
qed

text \<open>
  The claim C8 as it stands is false: the run over an input file without any URL
  completes and writes a table whose only column is \<^verbatim>\<open>url\<close>.
\<close>

theorem empty_input_writes_url_column_only:
  "fst (main web ''none.csv'' 1 5 ''out.csv'' [] disk) = Completed \<and>
   map_option header (outputs (snd (main web ''none.csv'' 1 5 ''out.csv'' [] disk)) ''out.csv'')
     = Some [Name ''url'']"
proof -
  have l: "load_data disk ''none.csv'' = Inr []"
    by (simp add: load_data_def disk_def)
  have s: "Semaphore 5 = Inr 5" by (simp add: Semaphore_def)
  show ?thesis
    by (simp add: main_def l s scrape_all_empty save_results_def print_results_def to_csv_def)
qed

text \<open>
  C3. A timeout makes \<^verbatim>\<open>get_html_content\<close> print the diagnostic naming the URL and
  return \<^verbatim>\<open>None\<close> (lemma \<open>timeout_returns_marker_and_prints\<close>). The batch does not
  survive it: with the two URLs \<^verbatim>\<open>https://a\<close> (a document) and \<^verbatim>\<open>https://b\<close> (a timeout)
  the gathered list is a dictionary followed by \<^verbatim>\<open>None\<close>, \<^verbatim>\<open>pd.DataFrame\<close> raises
  \<^verbatim>\<open>AttributeError\<close> on it under every schedule, and no file is written.
\<close>

theorem timeout_after_document_breaks_assembly:
  "fst (main web ''ab.csv'' 1 5 ''out.csv'' sched disk) =
     Failed (AttributeError ([CHR 0x27] @ ''NoneType'' @ [CHR 0x27] @
               '' object has no attribute '' @ [CHR 0x27] @ ''keys'' @ [CHR 0x27])) \<and>
   outputs (snd (main web ''ab.csv'' 1 5 ''out.csv'' sched disk)) ''out.csv'' = None"
proof -
  let ?urls = "[''https://a'', ''https://b'']"
  let ?c = "run_until_complete web 1 ?urls sched (init_config 5 ?urls)"
  have l: "load_data disk ''ab.csv'' = Inr ?urls"
    by (simp add: load_data_def disk_def)
  have s: "Semaphore 5 = Inr 5" by (simp add: Semaphore_def)
  obtain t where a: "scrape_data web 0 ''https://a'' = Inr (Some t)"
    by (simp add: scrape_data_def web_def)
  have b: "scrape_data web 1 ''https://b'' = Inr None"
    by (rule scrape_data_timed_out) (simp add: web_def)
  have us: "unit_results web ?urls =
      [Inr (Some t), Inr None]"
    using a b by (simp add: unit_results_def)
  then have inr: "\<forall>x \<in> set (unit_results web ?urls). \<exists>y. x = Inr y" by simp
  have "assemble ?urls (map projr (unit_results web ?urls)) =
      Inl (AttributeError ([CHR 0x27] @ ''NoneType'' @ [CHR 0x27] @
               '' object has no attribute '' @ [CHR 0x27] @ ''keys'' @ [CHR 0x27]))"
    unfolding us by (simp add: assemble_def)
  with scrape_all_returned [OF _ inr, of 5 1 sched]
  have sc: "scrape_all web 1 5 ?urls sched =
      ((Failed (AttributeError ([CHR 0x27] @ ''NoneType'' @ [CHR 0x27] @
               '' object has no attribute '' @ [CHR 0x27] @ ''keys'' @ [CHR 0x27])),
        url_frame ?urls), ?c)"
    by simp
  have st: "fst (main web ''ab.csv'' 1 5 ''out.csv'' sched disk) =
     Failed (AttributeError ([CHR 0x27] @ ''NoneType'' @ [CHR 0x27] @
               '' object has no attribute '' @ [CHR 0x27] @ ''keys'' @ [CHR 0x27]))"
    by (simp add: main_def l s sc)
  then have "fst (main web ''ab.csv'' 1 5 ''out.csv'' sched disk) \<noteq> Completed" by simp
  from outputs_main_not_completed [OF this]
  have out: "outputs (snd (main web ''ab.csv'' 1 5 ''out.csv'' sched disk)) ''out.csv'' = None"
    by (simp add: disk_def)
  from st out show ?thesis by simp
qed

end
